theory Spec2Isabelle
  imports Main "HOL-Library.Word" "HOL-Library.AList"
begin

unbundle bit_operations_syntax

section \<open>Settings and data model of \<^verbatim>\<open>check_for_duplicates.py\<close>\<close>

text \<open>
  \<^verbatim>\<open>HASH_DISTANCE_THRESHOLD = 5\<close> and the allow-list \<^verbatim>\<open>VALID_EXTS\<close>.
\<close>

definition HASH_DISTANCE_THRESHOLD :: nat where
  "HASH_DISTANCE_THRESHOLD = 5"

definition VALID_EXTS :: "string list" where
  "VALID_EXTS = [''.jpg'', ''.jpeg'', ''.png'', ''.bmp'', ''.tiff'', ''.gif'', ''.webp'']"

text \<open>
  One entry of the list \<^verbatim>\<open>hashes\<close>: the dict with the keys \<^verbatim>\<open>"path"\<close>, \<^verbatim>\<open>"hash"\<close>,
  \<^verbatim>\<open>"resolution"\<close> and \<^verbatim>\<open>"resolution_str"\<close>. \<^verbatim>\<open>imagehash.phash\<close> with its default
  hash size yields an 8 by 8 bit matrix, here a 64-bit word; \<^verbatim>\<open>img.size\<close> is a pair of
  Python integers.
\<close>

record image_record =
  path :: string
  hash :: "64 word"
  resolution :: "int \<times> int"
  resolution_str :: string

text \<open>
  \<^verbatim>\<open>A["hash"] - B["hash"]\<close>: the subtraction of \<^verbatim>\<open>imagehash.ImageHash\<close> counts the
  positions at which the two bit matrices differ.
\<close>

definition hamming :: "64 word \<Rightarrow> 64 word \<Rightarrow> nat" where
  "hamming a b = length (filter (bit (a XOR b)) [0..<64])"

definition area :: "int \<times> int \<Rightarrow> int" where
  "area r = fst r * snd r"

subsection \<open>Python dictionaries\<close>

text \<open>
  A Python \<^verbatim>\<open>dict\<close> keeps its keys in insertion order, which the copy loops and the
  reports iterate in; it is modelled as an association list with distinct keys.
  Assigning to a key that is present replaces the value in place, assigning to a new key
  appends it (\<^const>\<open>AList.update\<close>); \<^verbatim>\<open>del\<close> removes the entry (\<^const>\<open>AList.delete\<close>).
\<close>

type_synonym ('k, 'v) dict = "('k \<times> 'v) list"

definition keys :: "('k, 'v) dict \<Rightarrow> 'k set" where
  "keys d = fst ` set d"

definition setdefault :: "'k \<Rightarrow> 'v \<Rightarrow> ('k, 'v) dict \<Rightarrow> ('k, 'v) dict" where
  "setdefault k v d = (if k \<in> keys d then d else AList.update k v d)"

type_synonym kept_map = "(string, image_record) dict"
type_synonym duplicates_map = "(string, string \<times> nat) dict"

section \<open>The comparison pass of \<^verbatim>\<open>dedupe_process\<close>\<close>

text \<open>
  The body of the inner loop (source lines 264 to 284) for the anchor \<^verbatim>\<open>A\<close> and the
  later record \<^verbatim>\<open>B\<close>, on the pair of dictionaries \<^verbatim>\<open>(kept, duplicates)\<close>.
\<close>

definition compare_pair ::
  "image_record \<Rightarrow> image_record \<Rightarrow> kept_map \<times> duplicates_map \<Rightarrow> kept_map \<times> duplicates_map" where
  "compare_pair A B st =
     (let kept = fst st; duplicates = snd st;
          A_path = path A; B_path = path B
      in if B_path \<in> keys duplicates then (kept, duplicates)
         else let dist = hamming (hash A) (hash B)
           in if dist \<le> HASH_DISTANCE_THRESHOLD then
                if resolution A = resolution B then (kept, duplicates)
                else if area (resolution A) \<ge> area (resolution B)
                  then (kept, AList.update B_path (A_path, dist) duplicates)
                  else (AList.update B_path B
                          (if A_path \<in> keys kept then AList.delete A_path kept else kept),
                        AList.update A_path (B_path, dist) duplicates)
              else (kept, duplicates))"

text \<open>\<^verbatim>\<open>for j in range(i+1, len(hashes))\<close> with \<^verbatim>\<open>B = hashes[j]\<close>.\<close>

definition inner_loop ::
  "image_record list \<Rightarrow> nat \<Rightarrow> image_record \<Rightarrow> kept_map \<times> duplicates_map
     \<Rightarrow> kept_map \<times> duplicates_map" where
  "inner_loop hashes i A st =
     foldl (\<lambda>s j. compare_pair A (hashes ! j) s) st [i + 1 ..< length hashes]"

text \<open>
  \<^verbatim>\<open>for i in range(len(hashes))\<close>. The flag \<^verbatim>\<open>self.running\<close> is cleared by the Cancel
  button from another thread; \<open>running i\<close> is the value the pass reads at the head of
  outer iteration \<open>i\<close>. When the flag is clear the method returns: the result is
  \<open>None\<close>, the dictionaries are dropped and nothing after the pass runs.
\<close>

function outer_loop ::
  "(nat \<Rightarrow> bool) \<Rightarrow> image_record list \<Rightarrow> nat \<Rightarrow> kept_map \<times> duplicates_map
     \<Rightarrow> (kept_map \<times> duplicates_map) option" where
  "outer_loop running hashes i st =
     (if i < length hashes then
        if \<not> running i then None
        else let A = hashes ! i; A_path = path A
          in if A_path \<in> keys (snd st) then outer_loop running hashes (i + 1) st
             else outer_loop running hashes (i + 1)
                    (inner_loop hashes i A (setdefault A_path A (fst st), snd st))
      else Some st)"
  by pat_completeness auto
termination
  by (relation "measure (\<lambda>(running, hashes, i, st). length hashes - i)") auto

declare outer_loop.simps [simp del]

text \<open>\<^verbatim>\<open>kept = {}\<close>, \<^verbatim>\<open>duplicates = {}\<close>, then the two nested loops.\<close>

definition cluster ::
  "(nat \<Rightarrow> bool) \<Rightarrow> image_record list \<Rightarrow> (kept_map \<times> duplicates_map) option" where
  "cluster running hashes = outer_loop running hashes 0 ([], [])"

definition never_cancelled :: "nat \<Rightarrow> bool" where
  "never_cancelled i = True"

section \<open>Paths and the file system\<close>

text \<open>
  Paths are POSIX path strings. \<^verbatim>\<open>os.path.basename\<close> is what follows the last slash;
  \<^verbatim>\<open>os.path.join\<close> of two components restarts at an absolute second component and
  inserts a slash unless the first is empty or already ends with one.
\<close>

definition basename :: "string \<Rightarrow> string" where
  "basename p = rev (takeWhile (\<lambda>c. c \<noteq> CHR ''/'') (rev p))"

definition join :: "string \<Rightarrow> string \<Rightarrow> string" where
  "join a b =
     (if b \<noteq> [] \<and> hd b = CHR ''/'' then b
      else if a = [] \<or> last a = CHR ''/'' then a @ b
      else a @ ''/'' @ b)"

text \<open>
  The first component as \<^const>\<open>join\<close> leaves it in front of a second component that
  does not start with a slash.
\<close>

definition with_sep :: "string \<Rightarrow> string" where
  "with_sep a = (if a = [] \<or> last a = CHR ''/'' then a else a @ ''/'')"

text \<open>
  \<^verbatim>\<open>os.path.splitext(f)[1]\<close>: the extension starts at the last dot of the last path
  component, provided a character other than a dot precedes it there.
\<close>

definition splitext_ext :: "string \<Rightarrow> string" where
  "splitext_ext p =
     (let name = basename p
      in if CHR ''.'' \<in> set name then
           let ext = CHR ''.'' # rev (takeWhile (\<lambda>c. c \<noteq> CHR ''.'') (rev name));
               stem = rev (tl (dropWhile (\<lambda>c. c \<noteq> CHR ''.'') (rev name)))
           in if list_ex (\<lambda>c. c \<noteq> CHR ''.'') stem then ext else []
         else [])"

text \<open>\<^verbatim>\<open>str.lower\<close> on the ASCII letters.\<close>

definition lower_char :: "char \<Rightarrow> char" where
  "lower_char c =
     (if (65::nat) \<le> of_char c \<and> of_char c \<le> (90::nat) then char_of (of_char c + (32::nat)) else c)"

definition lower :: "string \<Rightarrow> string" where
  "lower s = map lower_char s"

text \<open>
  The file system is a map from paths to entries. A regular file carries what was written
  to it: the bytes of an image, the rows handed to \<^verbatim>\<open>csv.writer\<close>, the object handed to
  \<^verbatim>\<open>json.dump\<close>, or the text of the Markdown report.
\<close>

record json_data =
  timestamp :: string
  source_directory :: string
  output_directory :: string
  trash_directory :: string
  total_scanned :: nat
  total_kept :: nat
  total_duplicates :: nat
  hash_method :: string
  hash_distance_threshold :: nat
  clusters :: "(string, string list) dict"

datatype content =
    Blob string
  | Csv "string list list"
  | Json json_data
  | Text string

datatype entry = Dir | File content

type_synonym fs = "string \<rightharpoonup> entry"

datatype py_error = FileNotFoundError | IsADirectoryError | SameFileError | StopIteration

definition exists :: "fs \<Rightarrow> string \<Rightarrow> bool" where
  "exists fs p \<longleftrightarrow> fs p \<noteq> None"

definition isdir :: "fs \<Rightarrow> string \<Rightarrow> bool" where
  "isdir fs p \<longleftrightarrow> fs p = Some Dir"

text \<open>
  \<^verbatim>\<open>safe_mkdir\<close>. \<^verbatim>\<open>start_dedupe\<close> only starts a run on an output directory that
  exists, so \<^verbatim>\<open>os.makedirs\<close> has one directory to create.
\<close>

definition safe_mkdir :: "string \<Rightarrow> fs \<Rightarrow> fs" where
  "safe_mkdir p fs = (if \<not> exists fs p then fs(p \<mapsto> Dir) else fs)"

text \<open>
  \<^verbatim>\<open>shutil.copy2(src, dst)\<close>: a destination that is a directory stands for the file of
  the source's name inside it; the source must be a regular file, and differ from the
  destination, which must not be a directory.
\<close>

definition copy2 :: "string \<Rightarrow> string \<Rightarrow> fs \<Rightarrow> py_error + fs" where
  "copy2 src dst fs =
     (let dst' = (if isdir fs dst then join dst (basename src) else dst)
      in case fs src of
           None \<Rightarrow> Inl FileNotFoundError
         | Some Dir \<Rightarrow> Inl IsADirectoryError
         | Some (File c) \<Rightarrow>
             if dst' = src then Inl SameFileError
             else if isdir fs dst' then Inl IsADirectoryError
             else Inr (fs(dst' \<mapsto> File c)))"

text \<open>\<^verbatim>\<open>open(p, "w")\<close> followed by the writes and the close.\<close>

definition write_file :: "string \<Rightarrow> content \<Rightarrow> fs \<Rightarrow> py_error + fs" where
  "write_file p c fs = (if isdir fs p then Inl IsADirectoryError else Inr (fs(p \<mapsto> File c)))"

section \<open>Helpers\<close>

text \<open>\<^verbatim>\<open>str\<close> of a Python integer.\<close>

function str_nat :: "nat \<Rightarrow> string" where
  "str_nat n =
     (if n < 10 then [char_of (48 + n)] else str_nat (n div 10) @ [char_of (48 + n mod 10)])"
  by pat_completeness auto
termination
  by (relation "measure id") auto

declare str_nat.simps [simp del]

definition str_int :: "int \<Rightarrow> string" where
  "str_int i = (if i < 0 then CHR ''-'' # str_nat (nat (- i)) else str_nat (nat i))"

definition format_resolution :: "(int \<times> int) option \<Rightarrow> string" where
  "format_resolution res_tuple =
     (case res_tuple of
        None \<Rightarrow> ''unknown''
      | Some (w, h) \<Rightarrow> str_int w @ ''x'' @ str_int h)"

text \<open>
  \<^verbatim>\<open>find_images_recursive\<close>: \<open>os_walk rootdir\<close> is the sequence of triples
  \<^verbatim>\<open>(root, dirs, files)\<close> that \<^verbatim>\<open>os.walk\<close> yields.
\<close>

definition find_images_recursive ::
  "(string \<Rightarrow> (string \<times> string list \<times> string list) list) \<Rightarrow> string \<Rightarrow> string list" where
  "find_images_recursive os_walk rootdir =
     concat (map (\<lambda>(root, dirs, files).
                    map (join root)
                      (filter (\<lambda>f. lower (splitext_ext f) \<in> set VALID_EXTS) files))
                 (os_walk rootdir))"

section \<open>The run: \<^verbatim>\<open>dedupe_process\<close>\<close>

text \<open>
  What a run reads from outside the program: the directory listing of \<^verbatim>\<open>os.walk\<close>,
  the outcome of \<^verbatim>\<open>Image.open\<close> with \<^verbatim>\<open>img.size\<close> and \<^verbatim>\<open>imagehash.phash\<close> for a path
  (\<open>None\<close> when any of them raises), the value of \<^verbatim>\<open>self.running\<close> at each read in the
  hashing loop and in the comparison pass, and the two readings of the clock. The calls
  to \<^verbatim>\<open>self.log\<close> and the progress bar only draw on the window and are left out.
\<close>

record env =
  env_walk :: "string \<Rightarrow> (string \<times> string list \<times> string list) list"
  env_open_image :: "string \<Rightarrow> ((int \<times> int) \<times> 64 word) option"
  env_running_hash :: "nat \<Rightarrow> bool"
  env_running_compare :: "nat \<Rightarrow> bool"
  env_now :: "nat \<Rightarrow> string"

text \<open>
  The hashing loop, with the source's counter \<^verbatim>\<open>count\<close>. A file that fails to open is
  logged and skipped; a cleared flag ends the run (\<open>None\<close>).
\<close>

fun hashing_loop ::
  "(nat \<Rightarrow> bool) \<Rightarrow> (string \<Rightarrow> ((int \<times> int) \<times> 64 word) option) \<Rightarrow> nat \<Rightarrow> string list
     \<Rightarrow> image_record list \<Rightarrow> image_record list option" where
  "hashing_loop running open_image count [] hashes = Some hashes"
| "hashing_loop running open_image count (img_path # rest) hashes =
     (if \<not> running count then None
      else case open_image img_path of
             Some (res, ph) \<Rightarrow>
               hashing_loop running open_image (count + 1) rest
                 (hashes @ [\<lparr>path = img_path, hash = ph, resolution = res,
                             resolution_str = format_resolution (Some res)\<rparr>])
           | None \<Rightarrow> hashing_loop running open_image (count + 1) rest hashes)"

text \<open>
  \<^verbatim>\<open>for k in kept.values()\<close>: copy each kept file to its base name under the output
  directory unless something exists there. The loop returns the file system it leaves
  and the exception that ended it, if any.
\<close>

fun copy_kept :: "string \<Rightarrow> image_record list \<Rightarrow> fs \<Rightarrow> fs \<times> py_error option" where
  "copy_kept out_dir [] fs = (fs, None)"
| "copy_kept out_dir (k # ks) fs =
     (let dst = join out_dir (basename (path k))
      in if \<not> exists fs dst then
           (case copy2 (path k) dst fs of
              Inl e \<Rightarrow> (fs, Some e)
            | Inr fs' \<Rightarrow> copy_kept out_dir ks fs')
         else copy_kept out_dir ks fs)"

text \<open>\<^verbatim>\<open>next(h for h in hashes if h["path"] == p)\<close>.\<close>

definition next_with_path :: "image_record list \<Rightarrow> string \<Rightarrow> py_error + image_record" where
  "next_with_path hashes p =
     (case List.find (\<lambda>h. path h = p) hashes of
        None \<Rightarrow> Inl StopIteration
      | Some h \<Rightarrow> Inr h)"

text \<open>
  \<^verbatim>\<open>for dup_path, (kept_path, dist) in duplicates.items()\<close>: the copy into the trash
  directory, with no test of the destination, and the row of the duplicate log.
\<close>

fun copy_duplicates ::
  "image_record list \<Rightarrow> string \<Rightarrow> duplicates_map \<Rightarrow> fs \<times> string list list
     \<Rightarrow> (fs \<times> string list list) \<times> py_error option" where
  "copy_duplicates hashes trash_dir [] st = (st, None)"
| "copy_duplicates hashes trash_dir ((dup_path, (kept_path, dist)) # rest) (fs, duplicate_rows) =
     (let filename = basename dup_path;
          trash_loc = join trash_dir filename
      in case copy2 dup_path trash_loc fs of
           Inl e \<Rightarrow> ((fs, duplicate_rows), Some e)
         | Inr fs' \<Rightarrow>
            (case next_with_path hashes dup_path of
               Inl e \<Rightarrow> ((fs', duplicate_rows), Some e)
             | Inr A \<Rightarrow>
                (case next_with_path hashes kept_path of
                   Inl e \<Rightarrow> ((fs', duplicate_rows), Some e)
                 | Inr B \<Rightarrow>
                     copy_duplicates hashes trash_dir rest
                       (fs', duplicate_rows @
                          [[dup_path, trash_loc, resolution_str A,
                            kept_path, resolution_str B, str_nat dist]]))))"

text \<open>The reports.\<close>

definition newline :: string where
  "newline = [CHR 0x0A]"

definition duplicate_log_csv :: "string list list \<Rightarrow> content" where
  "duplicate_log_csv duplicate_rows =
     Csv ([''Removed File'', ''Moved To'', ''Removed Resolution'',
           ''Kept File'', ''Kept Resolution'', ''Hash Distance''] # duplicate_rows)"

definition duplicate_details_csv :: "duplicates_map \<Rightarrow> content" where
  "duplicate_details_csv duplicates =
     Csv ([''Removed File'', ''Reason''] #
          map (\<lambda>(dup_path, (kept_path, dist)).
                 [dup_path,
                  ''Lower resolution than '' @ kept_path @ '', distance '' @ str_nat dist])
              duplicates)"

text \<open>\<^verbatim>\<open>clusters.setdefault(kept_path, []).append(dup_path)\<close> over the duplicates.\<close>

definition build_clusters :: "duplicates_map \<Rightarrow> (string, string list) dict" where
  "build_clusters duplicates =
     foldl (\<lambda>clusters (dup_path, (kept_path, dist)).
              AList.update kept_path
                ((case map_of clusters kept_path of None \<Rightarrow> [] | Some l \<Rightarrow> l) @ [dup_path])
                clusters)
           [] duplicates"

definition session_json ::
  "string \<Rightarrow> string \<Rightarrow> string \<Rightarrow> string \<Rightarrow> nat \<Rightarrow> kept_map \<Rightarrow> duplicates_map
     \<Rightarrow> (string, string list) dict \<Rightarrow> json_data" where
  "session_json now src_dir out_dir trash_dir total_files kept duplicates cl =
     \<lparr>timestamp = now,
      source_directory = src_dir,
      output_directory = out_dir,
      trash_directory = trash_dir,
      total_scanned = total_files,
      total_kept = length kept,
      total_duplicates = length duplicates,
      hash_method = ''phash'',
      hash_distance_threshold = HASH_DISTANCE_THRESHOLD,
      clusters = cl\<rparr>"

definition session_report ::
  "string \<Rightarrow> string \<Rightarrow> string \<Rightarrow> string \<Rightarrow> nat \<Rightarrow> kept_map \<Rightarrow> duplicates_map
     \<Rightarrow> (string, string list) dict \<Rightarrow> content" where
  "session_report now src_dir out_dir trash_dir total_files kept duplicates cl =
     Text (''# Dedupe Session Report'' @ newline @ newline
         @ ''**Timestamp:** '' @ now @ newline @ newline
         @ ''**Source directory:** `'' @ src_dir @ ''`'' @ newline @ newline
         @ ''**Output directory:** `'' @ out_dir @ ''`'' @ newline @ newline
         @ ''**Trash directory:** `'' @ trash_dir @ ''`'' @ newline @ newline
         @ ''---'' @ newline @ newline
         @ ''## Summary'' @ newline
         @ ''- Total images scanned: **'' @ str_nat total_files @ ''**'' @ newline
         @ ''- Kept images: **'' @ str_nat (length kept) @ ''**'' @ newline
         @ ''- Duplicates: **'' @ str_nat (length duplicates) @ ''**'' @ newline
         @ ''- Hash distance threshold: `'' @ str_nat HASH_DISTANCE_THRESHOLD @ ''`''
         @ newline @ newline
         @ ''## Duplicate Clusters'' @ newline @ newline
         @ concat (map (\<lambda>(keeper, dups).
                          ''### Kept Image: `'' @ keeper @ ''`'' @ newline @ newline
                        @ concat (map (\<lambda>d. ''- `'' @ d @ ''`'' @ newline) dups)
                        @ newline)
                       cl))"

text \<open>
  How a run ends: at the empty scan, at a cleared flag, by an exception that leaves the
  method, or after the last report, with the summary it wrote.
\<close>

datatype outcome = No_images | Cancelled | Raised py_error | Completed json_data

definition write_reports ::
  "env \<Rightarrow> string \<Rightarrow> string \<Rightarrow> string \<Rightarrow> nat \<Rightarrow> kept_map \<Rightarrow> duplicates_map
     \<Rightarrow> string list list \<Rightarrow> fs \<Rightarrow> fs \<times> outcome" where
  "write_reports e src_dir out_dir trash_dir total_files kept duplicates duplicate_rows fs =
     (let csv_path = join out_dir ''duplicate_log.csv''
      in case write_file csv_path (duplicate_log_csv duplicate_rows) fs of
           Inl err \<Rightarrow> (fs, Raised err)
         | Inr fs1 \<Rightarrow>
     (let trash_csv = join trash_dir ''duplicate_details.csv''
      in case write_file trash_csv (duplicate_details_csv duplicates) fs1 of
           Inl err \<Rightarrow> (fs1, Raised err)
         | Inr fs2 \<Rightarrow>
     (let json_path = join out_dir ''dedupe_session.json'';
          cl = build_clusters duplicates;
          json = session_json (env_now e 0) src_dir out_dir trash_dir total_files
                   kept duplicates cl
      in case write_file json_path (Json json) fs2 of
           Inl err \<Rightarrow> (fs2, Raised err)
         | Inr fs3 \<Rightarrow>
     (let report_path = join out_dir ''dedupe_session_report.md''
      in case write_file report_path
                (session_report (env_now e 1) src_dir out_dir trash_dir total_files
                   kept duplicates cl) fs3 of
           Inl err \<Rightarrow> (fs3, Raised err)
         | Inr fs4 \<Rightarrow> (fs4, Completed json)))))"

definition dedupe_process :: "env \<Rightarrow> string \<Rightarrow> string \<Rightarrow> fs \<Rightarrow> fs \<times> outcome" where
  "dedupe_process e src_dir out_dir fs =
     (let images = find_images_recursive (env_walk e) src_dir;
          total_files = length images
      in if total_files = 0 then (fs, No_images)
         else case hashing_loop (env_running_hash e) (env_open_image e) 0 images [] of
                None \<Rightarrow> (fs, Cancelled)
              | Some hashes \<Rightarrow>
         (case cluster (env_running_compare e) hashes of
            None \<Rightarrow> (fs, Cancelled)
          | Some (kept, duplicates) \<Rightarrow>
         (let fs1 = safe_mkdir out_dir fs;
              trash_dir = join out_dir ''trash'';
              fs2 = safe_mkdir trash_dir fs1
          in case copy_kept out_dir (map snd kept) fs2 of
               (fs3, Some err) \<Rightarrow> (fs3, Raised err)
             | (fs3, None) \<Rightarrow>
          (case copy_duplicates hashes trash_dir duplicates (fs3, []) of
             ((fs4, duplicate_rows), Some err) \<Rightarrow> (fs4, Raised err)
           | ((fs4, duplicate_rows), None) \<Rightarrow>
               write_reports e src_dir out_dir trash_dir total_files
                 kept duplicates duplicate_rows fs4))))"

section \<open>Example inputs\<close>

text \<open>The entry the hashing loop appends for a file that opened.\<close>

definition mk_image :: "string \<Rightarrow> 64 word \<Rightarrow> int \<times> int \<Rightarrow> image_record" where
  "mk_image p h r =
     \<lparr>path = p, hash = h, resolution = r, resolution_str = format_resolution (Some r)\<rparr>"

text \<open>A Cancel click that clears the flag just before the read at anchor \<open>n\<close>.\<close>

definition cancel_before :: "nat \<Rightarrow> nat \<Rightarrow> bool" where
  "cancel_before n i \<longleftrightarrow> i < n"

text \<open>
  A source tree with three images, one file that does not decode, and files that the
  scan passes over; the same tree without a candidate; and an output directory that
  already holds a file named like one of the images.
\<close>

definition walk_example :: "string \<Rightarrow> (string \<times> string list \<times> string list) list" where
  "walk_example rootdir =
     [(''/s'', [''sub''], [''a.jpg'', ''b.JPG'', ''notes.txt'', ''.png'']),
      (''/s/sub'', [], [''c.jpeg'', ''broken.png''])]"

definition walk_no_images :: "string \<Rightarrow> (string \<times> string list \<times> string list) list" where
  "walk_no_images rootdir = [(''/s'', [''sub''], [''notes.txt'', ''.png'', ''README'']), (''/s/sub'', [], [])]"

definition open_example :: "string \<Rightarrow> ((int \<times> int) \<times> 64 word) option" where
  "open_example p =
     (if p = ''/s/a.jpg'' then Some ((1920, 1080), 0)
      else if p = ''/s/b.JPG'' then Some ((1280, 720), 7)
      else if p = ''/s/sub/c.jpeg'' then Some ((640, 480), 1048575)
      else None)"

definition env_example :: env where
  "env_example =
     \<lparr>env_walk = walk_example, env_open_image = open_example,
      env_running_hash = never_cancelled, env_running_compare = never_cancelled,
      env_now = (\<lambda>k. ''2024-01-01T00:00:00'')\<rparr>"

definition env_no_images :: env where
  "env_no_images = env_example\<lparr>env_walk := walk_no_images\<rparr>"

definition fs_example :: fs where
  "fs_example =
     [''/s'' \<mapsto> Dir, ''/s/sub'' \<mapsto> Dir, ''/o'' \<mapsto> Dir,
      ''/s/a.jpg'' \<mapsto> File (Blob ''A''), ''/s/b.JPG'' \<mapsto> File (Blob ''B''),
      ''/s/sub/c.jpeg'' \<mapsto> File (Blob ''C''), ''/s/sub/broken.png'' \<mapsto> File (Blob ''''),
      ''/o/a.jpg'' \<mapsto> File (Blob ''earlier'')]"

definition kept_example :: "image_record list" where
  "kept_example = [mk_image ''/s/a.jpg'' 0 (1920, 1080), mk_image ''/s/sub/c.jpeg'' 1048575 (640, 480)]"

definition hashes_example :: "image_record list" where
  "hashes_example =
     [mk_image ''/s/a.jpg'' 0 (1920, 1080), mk_image ''/s/b.JPG'' 7 (1280, 720),
      mk_image ''/s/sub/c.jpeg'' 1048575 (640, 480)]"

definition session_example :: json_data where
  "session_example =
     \<lparr>timestamp = ''2024-01-01T00:00:00'', source_directory = ''/s'',
      output_directory = ''/o'', trash_directory = ''/o/trash'',
      total_scanned = 4, total_kept = 2, total_duplicates = 1,
      hash_method = ''phash'', hash_distance_threshold = 5,
      clusters = [(''/s/a.jpg'', [''/s/b.JPG''])]\<rparr>"

text \<open>
  The example tree without the file that does not decode, and the example run with
  the flag cleared before the second anchor of the comparison pass.
\<close>

definition walk_all_decode :: "string \<Rightarrow> (string \<times> string list \<times> string list) list" where
  "walk_all_decode rootdir =
     [(''/s'', [''sub''], [''a.jpg'', ''b.JPG'', ''notes.txt'']), (''/s/sub'', [], [''c.jpeg''])]"

definition env_all_decode :: env where
  "env_all_decode = env_example\<lparr>env_walk := walk_all_decode\<rparr>"

definition env_cancel_compare :: env where
  "env_cancel_compare = env_example\<lparr>env_running_compare := cancel_before 1\<rparr>"

definition session_all_decode :: json_data where
  "session_all_decode = session_example\<lparr>total_scanned := 3\<rparr>"

section \<open>Properties\<close>

subsection \<open>Dictionaries\<close>

lemma keys_Nil [simp]: "keys [] = {}"
  by (simp add: keys_def)

lemma keys_Cons [simp]: "keys (kv # d) = insert (fst kv) (keys d)"
  by (simp add: keys_def)

lemma keys_map_fst: "keys d = set (map fst d)"
  by (simp add: keys_def)

lemma keys_update [simp]: "keys (AList.update k v d) = insert k (keys d)"
  by (auto simp: keys_map_fst update_keys)

lemma keys_delete [simp]: "keys (AList.delete k d) = keys d - {k}"
  by (auto simp: keys_map_fst delete_keys)

lemma keys_setdefault [simp]: "keys (setdefault k v d) = insert k (keys d)"
  by (auto simp: setdefault_def)

lemma distinct_setdefault: "distinct (map fst d) \<Longrightarrow> distinct (map fst (setdefault k v d))"
  by (simp add: setdefault_def distinct_update)

lemma length_dict_card: "distinct (map fst d) \<Longrightarrow> length d = card (keys d)"
  by (metis distinct_card keys_map_fst length_map)

subsection \<open>Loops\<close>

lemma foldl_invariant:
  assumes "P s" and "\<And>s x. x \<in> set xs \<Longrightarrow> P s \<Longrightarrow> P (f s x)"
  shows "P (foldl f s xs)"
  using assms by (induction xs arbitrary: s) auto

lemma inner_loop_invariant:
  assumes "P st" and "\<And>s j. i < j \<Longrightarrow> j < length hashes \<Longrightarrow> P s \<Longrightarrow> P (compare_pair A (hashes ! j) s)"
  shows "P (inner_loop hashes i A st)"
  unfolding inner_loop_def
proof (rule foldl_invariant)
  show "P st" by (rule assms(1))
next
  fix s j
  assume "j \<in> set [i + 1..<length hashes]" and "P s"
  then show "P (compare_pair A (hashes ! j) s)"
    using assms(2)[of j s] by simp
qed

lemma inner_loop_last: "length hashes \<le> i + 1 \<Longrightarrow> inner_loop hashes i A st = st"
  by (simp add: inner_loop_def)

lemma inner_loop_two: "inner_loop [A, B] 0 A st = compare_pair A B st"
  by (simp add: inner_loop_def)

lemma outer_loop_end: "length hashes \<le> i \<Longrightarrow> outer_loop running hashes i st = Some st"
  by (simp add: outer_loop.simps)

lemma outer_loop_step:
  assumes "i < length hashes" "running i"
  shows "outer_loop running hashes i st =
     (if path (hashes ! i) \<in> keys (snd st) then outer_loop running hashes (Suc i) st
      else outer_loop running hashes (Suc i)
             (inner_loop hashes i (hashes ! i)
                (setdefault (path (hashes ! i)) (hashes ! i) (fst st), snd st)))"
  using assms by (subst outer_loop.simps) (simp add: Let_def)

lemma outer_loop_cancel:
  assumes "i < length hashes" "\<not> running i"
  shows "outer_loop running hashes i st = None"
  using assms by (subst outer_loop.simps) simp

lemma never_cancelled_True: "never_cancelled i"
  by (simp add: never_cancelled_def)

lemma cluster_two:
  assumes "running 0" "running 1"
  shows "cluster running [A, B] =
     (let st = compare_pair A B (setdefault (path A) A [], [])
      in if path B \<in> keys (snd st) then Some st
         else Some (setdefault (path B) B (fst st), snd st))"
  unfolding cluster_def using assms
  by (simp add: outer_loop_step outer_loop_end inner_loop_two inner_loop_last Let_def)

lemma cluster_two_never_cancelled:
  "cluster never_cancelled [A, B] =
     (let st = compare_pair A B (setdefault (path A) A [], [])
      in if path B \<in> keys (snd st) then Some st
         else Some (setdefault (path B) B (fst st), snd st))"
  by (rule cluster_two) (rule never_cancelled_True)+

subsection \<open>Reading the cancellation flag\<close>

lemma never_cancelled_eq: "never_cancelled = (\<lambda>i. True)"
  by (rule ext) (simp add: never_cancelled_def)

lemma outer_loop_total: "outer_loop (\<lambda>i. True) hashes i st \<noteq> None"
proof (induction "length hashes - i" arbitrary: i st)
  case 0
  then show ?case by (simp add: outer_loop_end)
next
  case (Suc n)
  then have lt: "i < length hashes" and n: "n = length hashes - Suc i" by simp_all
  show ?case
    using Suc.hyps(1)[OF n] lt by (simp add: outer_loop_step)
qed

lemma outer_loop_all_running:
  assumes "\<forall>j. i \<le> j \<and> j < length hashes \<longrightarrow> running j"
  shows "outer_loop running hashes i st = outer_loop (\<lambda>i. True) hashes i st"
  using assms
proof (induction "length hashes - i" arbitrary: i st)
  case 0
  then show ?case by (simp add: outer_loop_end)
next
  case (Suc n)
  then have lt: "i < length hashes" and n: "n = length hashes - Suc i" by simp_all
  have r: "running i" using Suc.prems lt by simp
  have rest: "\<forall>j. Suc i \<le> j \<and> j < length hashes \<longrightarrow> running j"
    using Suc.prems by simp
  show ?case
    using Suc.hyps(1)[OF n rest] lt r by (simp add: outer_loop_step)
qed

lemma outer_loop_some_cancel:
  assumes "i \<le> j" "j < length hashes" "\<not> running j"
  shows "outer_loop running hashes i st = None"
  using assms
proof (induction "j - i" arbitrary: i st)
  case 0
  then have "i = j" by simp
  with 0 show ?case by (simp add: outer_loop_cancel)
next
  case (Suc n)
  then have lt: "i < length hashes" and n: "n = j - Suc i" and le: "Suc i \<le> j" by simp_all
  show ?case
  proof (cases "running i")
    case False
    with lt show ?thesis by (simp add: outer_loop_cancel)
  next
    case True
    show ?thesis
      using Suc.hyps(1)[OF n le Suc.prems(2,3)] lt True by (simp add: outer_loop_step)
  qed
qed

subsection \<open>The example records\<close>

lemma mk_image_sel [simp]:
  "path (mk_image p h r) = p" "hash (mk_image p h r) = h" "resolution (mk_image p h r) = r"
  by (simp_all add: mk_image_def)

lemma hamming_0_3: "hamming 0 3 = 2"
  by code_simp

lemma hamming_0_31: "hamming 0 31 = 5"
  by code_simp

lemma hamming_0_63: "hamming 0 63 = 6"
  by code_simp

subsection \<open>The kept-copy loop\<close>

lemma copy2_fresh:
  assumes "copy2 src dst fs = Inr fs'" and "\<not> exists fs dst"
  shows "\<exists>c. fs' = fs(dst \<mapsto> File c)"
  using assms
  by (auto simp: copy2_def exists_def isdir_def Let_def split: option.splits entry.splits if_splits)

lemma copy_kept_preserves:
  "exists fs p \<Longrightarrow> fst (copy_kept out_dir ks fs) p = fs p"
proof (induction ks arbitrary: fs)
  case Nil
  then show ?case by simp
next
  case (Cons k ks)
  let ?dst = "join out_dir (basename (path k))"
  show ?case
  proof (cases "exists fs ?dst")
    case True
    with Cons show ?thesis by simp
  next
    case False
    show ?thesis
    proof (cases "copy2 (path k) ?dst fs")
      case (Inl e)
      with False show ?thesis by simp
    next
      case (Inr fs1)
      from copy2_fresh[OF Inr False] obtain c where fs1: "fs1 = fs(?dst \<mapsto> File c)" ..
      from Cons.prems False have ne: "p \<noteq> ?dst" by auto
      with fs1 Cons.prems have "exists fs1 p" and eq: "fs1 p = fs p"
        by (simp_all add: exists_def)
      from Cons.IH[OF this(1)] eq Inr False show ?thesis by simp
    qed
  qed
qed

lemma copy_kept_exists_mono:
  "exists fs p \<Longrightarrow> exists (fst (copy_kept out_dir ks fs)) p"
  using copy_kept_preserves[of fs p out_dir ks] by (simp add: exists_def)

lemma copy_kept_all_present:
  "list_all (\<lambda>k. exists fs (join out_dir (basename (path k)))) ks
     \<Longrightarrow> copy_kept out_dir ks fs = (fs, None)"
  by (induction ks) simp_all

lemma copy_kept_destinations:
  "snd (copy_kept out_dir ks fs) = None
     \<Longrightarrow> list_all (\<lambda>k. exists (fst (copy_kept out_dir ks fs)) (join out_dir (basename (path k)))) ks"
proof (induction ks arbitrary: fs)
  case Nil
  then show ?case by simp
next
  case (Cons k ks)
  let ?dst = "join out_dir (basename (path k))"
  show ?case
  proof (cases "exists fs ?dst")
    case True
    with Cons.prems have "snd (copy_kept out_dir ks fs) = None" by simp
    from Cons.IH[OF this] copy_kept_exists_mono[OF True, of out_dir ks] True
    show ?thesis by simp
  next
    case False
    show ?thesis
    proof (cases "copy2 (path k) ?dst fs")
      case (Inl e)
      with False Cons.prems show ?thesis by simp
    next
      case (Inr fs1)
      from copy2_fresh[OF Inr False] have ex: "exists fs1 ?dst"
        by (auto simp: exists_def)
      from Cons.prems Inr False have "snd (copy_kept out_dir ks fs1) = None" by simp
      from Cons.IH[OF this] copy_kept_exists_mono[OF ex, of out_dir ks] Inr False
      show ?thesis by simp
    qed
  qed
qed

lemma copy_kept_idempotent:
  assumes "snd (copy_kept out_dir ks fs) = None"
  shows "copy_kept out_dir ks (fst (copy_kept out_dir ks fs)) = (fst (copy_kept out_dir ks fs), None)"
  by (rule copy_kept_all_present) (rule copy_kept_destinations[OF assms])

subsection \<open>Paths under the trash directory\<close>

lemma basename_no_slash: "CHR ''/'' \<notin> set (basename p)"
proof
  assume "CHR ''/'' \<in> set (basename p)"
  then have "CHR ''/'' \<in> set (takeWhile (\<lambda>c. c \<noteq> CHR ''/'') (rev p))"
    by (simp add: basename_def)
  then show False by (auto dest: set_takeWhileD)
qed

lemma join_no_slash: "CHR ''/'' \<notin> set b \<Longrightarrow> join a b = with_sep a @ b"
  by (cases b) (auto simp: join_def with_sep_def)

lemma join_trash: "join (join out_dir ''trash'') b = with_sep out_dir @ ''trash/'' @ b"
  if "CHR ''/'' \<notin> set b"
proof -
  have "join out_dir ''trash'' = with_sep out_dir @ ''trash''"
    by (simp add: join_no_slash)
  moreover have "with_sep (with_sep out_dir @ ''trash'') = with_sep out_dir @ ''trash/''"
    by (simp add: with_sep_def)
  ultimately show ?thesis using that by (simp add: join_no_slash)
qed

lemma join_trash2:
  assumes "CHR ''/'' \<notin> set b" "CHR ''/'' \<notin> set b'"
  shows "\<exists>r. join (join (join out_dir ''trash'') b) b' = with_sep out_dir @ ''trash/'' @ r"
proof -
  have 1: "join (join out_dir ''trash'') b = with_sep out_dir @ ''trash/'' @ b"
    using assms(1) by (rule join_trash)
  have 2: "join (join (join out_dir ''trash'') b) b' = with_sep (with_sep out_dir @ ''trash/'' @ b) @ b'"
    unfolding 1 using assms(2) by (rule join_no_slash)
  show ?thesis
  proof (cases "last (with_sep out_dir @ ''trash/'' @ b) = CHR ''/''")
    case True
    then have "with_sep (with_sep out_dir @ ''trash/'' @ b) = with_sep out_dir @ ''trash/'' @ b"
      by (simp add: with_sep_def)
    with 2 have "join (join (join out_dir ''trash'') b) b' = with_sep out_dir @ ''trash/'' @ (b @ b')"
      by simp
    then show ?thesis by blast
  next
    case False
    then have "with_sep (with_sep out_dir @ ''trash/'' @ b) = with_sep out_dir @ ''trash/'' @ b @ ''/''"
      by (simp add: with_sep_def)
    with 2 have "join (join (join out_dir ''trash'') b) b' = with_sep out_dir @ ''trash/'' @ (b @ ''/'' @ b')"
      by simp
    then show ?thesis by blast
  qed
qed

lemma trash_not_kept_destination:
  assumes "CHR ''/'' \<notin> set q"
  shows "with_sep out_dir @ ''trash/'' @ r \<noteq> join out_dir q"
proof
  assume "with_sep out_dir @ ''trash/'' @ r = join out_dir q"
  then have "''trash/'' @ r = q" using assms by (simp add: join_no_slash)
  with assms show False by auto
qed

lemma copy2_target:
  assumes "copy2 src dst fs = Inr fs'"
  shows "\<exists>c. fs' = fs(dst \<mapsto> File c) \<or> fs' = fs(join dst (basename src) \<mapsto> File c)"
  using assms
  by (auto simp: copy2_def Let_def split: option.splits entry.splits if_splits)

lemma copy2_trash_keeps:
  assumes "copy2 src (join (join out_dir ''trash'') (basename src)) fs = Inr fs'"
  shows "fs' (join out_dir (basename q)) = fs (join out_dir (basename q))"
proof -
  let ?t = "join (join out_dir ''trash'') (basename src)"
  have 1: "?t \<noteq> join out_dir (basename q)"
    using trash_not_kept_destination[OF basename_no_slash, of out_dir "basename src" q]
    by (simp add: join_trash basename_no_slash)
  obtain r where "join ?t (basename src) = with_sep out_dir @ ''trash/'' @ r"
    using join_trash2[OF basename_no_slash basename_no_slash] by blast
  then have 2: "join ?t (basename src) \<noteq> join out_dir (basename q)"
    using trash_not_kept_destination[OF basename_no_slash, of out_dir r q] by simp
  from copy2_target[OF assms] 1 2 show ?thesis by auto
qed

lemma copy_duplicates_keeps:
  "fst (fst (copy_duplicates hashes (join out_dir ''trash'') duplicates (fs, rows)))
     (join out_dir (basename q)) = fs (join out_dir (basename q))"
proof (induction duplicates arbitrary: fs rows)
  case Nil
  then show ?case by simp
next
  case (Cons d ds)
  obtain dup_path kept_path dist where d: "d = (dup_path, (kept_path, dist))"
    by (cases d) auto
  show ?case
  proof (cases "copy2 dup_path (join (join out_dir ''trash'') (basename dup_path)) fs")
    case (Inl e)
    then show ?thesis by (simp add: d)
  next
    case (Inr fs1)
    from copy2_trash_keeps[OF Inr] have k: "fs1 (join out_dir (basename q)) = fs (join out_dir (basename q))" .
    show ?thesis
      using Inr k Cons.IH[of fs1]
      by (simp add: d split: sum.splits)
  qed
qed

subsection \<open>The hashing loop\<close>

lemma hashing_loop_paths:
  "hashing_loop running open_image count images acc = Some hashes
     \<Longrightarrow> map path hashes = map path acc @ filter (\<lambda>p. open_image p \<noteq> None) images"
proof (induction images arbitrary: count acc)
  case Nil
  then show ?case by simp
next
  case (Cons img_path rest)
  from Cons.prems have r: "running count"
    by (simp split: if_splits)
  show ?case
  proof (cases "open_image img_path")
    case None
    with Cons.prems r have "hashing_loop running open_image (count + 1) rest acc = Some hashes"
      by simp
    from Cons.IH[OF this] None show ?thesis by simp
  next
    case (Some a)
    obtain w h ph where a: "a = ((w, h), ph)"
      by (metis surj_pair)
    let ?acc = "acc @ [\<lparr>path = img_path, hash = ph, resolution = (w, h),
                        resolution_str = format_resolution (Some (w, h))\<rparr>]"
    from Cons.prems r Some a have "hashing_loop running open_image (count + 1) rest ?acc = Some hashes"
      by simp
    from Cons.IH[OF this] have "map path hashes = map path acc @ img_path # filter (\<lambda>p. open_image p \<noteq> None) rest"
      by simp
    with Some a show ?thesis by simp
  qed
qed

subsection \<open>What the comparison pass keeps true\<close>

lemma compare_pair_distinct:
  assumes "distinct (map fst (fst st))" "distinct (map fst (snd st))"
  shows "distinct (map fst (fst (compare_pair A B st)))
       \<and> distinct (map fst (snd (compare_pair A B st)))"
  using assms by (simp add: compare_pair_def Let_def distinct_update distinct_delete)

lemma compare_pair_keys_mono:
  "keys (fst st) \<union> keys (snd st)
     \<subseteq> keys (fst (compare_pair A B st)) \<union> keys (snd (compare_pair A B st))"
  by (auto simp: compare_pair_def Let_def)

lemma compare_pair_keys_bound:
  "keys (fst (compare_pair A B st)) \<union> keys (snd (compare_pair A B st))
     \<subseteq> keys (fst st) \<union> keys (snd st) \<union> {path A, path B}"
  by (auto simp: compare_pair_def Let_def)

lemma inner_loop_keeps:
  assumes "distinct (map fst (fst st))" "distinct (map fst (snd st))"
    and "S \<subseteq> keys (fst st) \<union> keys (snd st)"
    and "keys (fst st) \<union> keys (snd st) \<subseteq> path ` set hashes"
    and "A \<in> set hashes"
  shows "distinct (map fst (fst (inner_loop hashes i A st)))
       \<and> distinct (map fst (snd (inner_loop hashes i A st)))
       \<and> S \<subseteq> keys (fst (inner_loop hashes i A st)) \<union> keys (snd (inner_loop hashes i A st))
       \<and> keys (fst (inner_loop hashes i A st)) \<union> keys (snd (inner_loop hashes i A st))
           \<subseteq> path ` set hashes"
proof (rule inner_loop_invariant
    [where P = "\<lambda>s. distinct (map fst (fst s)) \<and> distinct (map fst (snd s))
                  \<and> S \<subseteq> keys (fst s) \<union> keys (snd s)
                  \<and> keys (fst s) \<union> keys (snd s) \<subseteq> path ` set hashes"])
  show "distinct (map fst (fst st)) \<and> distinct (map fst (snd st))
      \<and> S \<subseteq> keys (fst st) \<union> keys (snd st)
      \<and> keys (fst st) \<union> keys (snd st) \<subseteq> path ` set hashes"
    using assms by simp
next
  fix s :: "kept_map \<times> duplicates_map" and j
  assume j: "j < length hashes"
    and s: "distinct (map fst (fst s)) \<and> distinct (map fst (snd s))
      \<and> S \<subseteq> keys (fst s) \<union> keys (snd s)
      \<and> keys (fst s) \<union> keys (snd s) \<subseteq> path ` set hashes"
  let ?s' = "compare_pair A (hashes ! j) s"
  have d: "distinct (map fst (fst ?s')) \<and> distinct (map fst (snd ?s'))"
    using s by (simp add: compare_pair_distinct)
  have m: "S \<subseteq> keys (fst ?s') \<union> keys (snd ?s')"
    using s compare_pair_keys_mono[of s A "hashes ! j"] by blast
  have "path A \<in> path ` set hashes" "path (hashes ! j) \<in> path ` set hashes"
    using assms(5) j by simp_all
  then have b: "keys (fst ?s') \<union> keys (snd ?s') \<subseteq> path ` set hashes"
    using s compare_pair_keys_bound[of A "hashes ! j" s] by blast
  from d m b
  show "distinct (map fst (fst ?s')) \<and> distinct (map fst (snd ?s'))
      \<and> S \<subseteq> keys (fst ?s') \<union> keys (snd ?s')
      \<and> keys (fst ?s') \<union> keys (snd ?s') \<subseteq> path ` set hashes"
    by simp
qed

lemma outer_loop_keeps:
  assumes "outer_loop running hashes i st = Some st'"
    and "distinct (map fst (fst st))" "distinct (map fst (snd st))"
    and "path ` set (take i hashes) \<subseteq> keys (fst st) \<union> keys (snd st)"
    and "keys (fst st) \<union> keys (snd st) \<subseteq> path ` set hashes"
  shows "distinct (map fst (fst st')) \<and> distinct (map fst (snd st'))
       \<and> keys (fst st') \<union> keys (snd st') = path ` set hashes"
  using assms
proof (induction "length hashes - i" arbitrary: i st)
  case 0
  then have "st' = st" and "take i hashes = hashes"
    by (simp_all add: outer_loop_end)
  with 0 show ?case by auto
next
  case (Suc n)
  then have lt: "i < length hashes" and n: "n = length hashes - Suc i"
    by simp_all
  let ?A = "hashes ! i"
  from Suc.prems(1) lt have r: "running i"
    by (cases "running i") (simp_all add: outer_loop_cancel)
  have tk: "path ` set (take (Suc i) hashes) = insert (path ?A) (path ` set (take i hashes))"
    using lt by (simp add: take_Suc_conv_app_nth)
  show ?case
  proof (cases "path ?A \<in> keys (snd st)")
    case True
    with Suc.prems(1) lt r have run: "outer_loop running hashes (Suc i) st = Some st'"
      by (simp add: outer_loop_step)
    have "path ` set (take (Suc i) hashes) \<subseteq> keys (fst st) \<union> keys (snd st)"
      using tk True Suc.prems(4) by auto
    from Suc.hyps(1)[OF n run Suc.prems(2,3) this Suc.prems(5)] show ?thesis .
  next
    case False
    let ?st1 = "(setdefault (path ?A) ?A (fst st), snd st)"
    let ?st2 = "inner_loop hashes i ?A ?st1"
    from False Suc.prems(1) lt r have run: "outer_loop running hashes (Suc i) ?st2 = Some st'"
      by (simp add: outer_loop_step)
    have A: "?A \<in> set hashes" using lt by simp
    have d1: "distinct (map fst (fst ?st1))" "distinct (map fst (snd ?st1))"
      using Suc.prems(2,3) by (simp_all add: distinct_setdefault)
    have c1: "path ` set (take (Suc i) hashes) \<subseteq> keys (fst ?st1) \<union> keys (snd ?st1)"
      using tk Suc.prems(4) by auto
    have b1: "keys (fst ?st1) \<union> keys (snd ?st1) \<subseteq> path ` set hashes"
      using Suc.prems(5) A by auto
    from inner_loop_keeps[OF d1 c1 b1 A, of i]
    have k: "distinct (map fst (fst ?st2))" "distinct (map fst (snd ?st2))"
      "path ` set (take (Suc i) hashes) \<subseteq> keys (fst ?st2) \<union> keys (snd ?st2)"
      "keys (fst ?st2) \<union> keys (snd ?st2) \<subseteq> path ` set hashes"
      by blast+
    from Suc.hyps(1)[OF n run k] show ?thesis .
  qed
qed

lemma cluster_covers:
  assumes "cluster running hashes = Some (kept, duplicates)"
  shows "distinct (map fst kept) \<and> distinct (map fst duplicates)
       \<and> keys kept \<union> keys duplicates = path ` set hashes"
  using outer_loop_keeps[of running hashes 0 "([], [])" "(kept, duplicates)"] assms
  by (simp add: cluster_def)

lemma cluster_sizes:
  assumes "cluster running hashes = Some (kept, duplicates)"
    and "distinct (map path hashes)" and "keys kept \<inter> keys duplicates = {}"
  shows "length kept + length duplicates = length hashes"
proof -
  from cluster_covers[OF assms(1)]
  have d: "distinct (map fst kept)" "distinct (map fst duplicates)"
    and u: "keys kept \<union> keys duplicates = path ` set hashes"
    by simp_all
  have "length kept + length duplicates = card (keys kept) + card (keys duplicates)"
    using d by (simp add: length_dict_card)
  also have "\<dots> = card (keys kept \<union> keys duplicates)"
    using assms(3) by (simp add: card_Un_disjoint keys_map_fst)
  also have "\<dots> = card (set (map path hashes))"
    using u by simp
  also have "\<dots> = length hashes"
    using assms(2) distinct_card[of "map path hashes"] by simp
  finally show ?thesis .
qed

subsection \<open>The edges of a run\<close>

lemma hamming_commute: "hamming a b = hamming b a"
  by (simp add: hamming_def xor.commute)

lemma set_update_cases:
  "x \<in> set (AList.update k v al) \<Longrightarrow> x = (k, v) \<or> x \<in> set al"
  by (induction al) (auto split: if_splits)

lemma outer_loop_invariant:
  assumes "outer_loop running hashes i st = Some st'" and "P st"
    and step: "\<And>A B s. A \<in> set hashes \<Longrightarrow> B \<in> set hashes \<Longrightarrow> P s \<Longrightarrow> P (compare_pair A B s)"
    and anchor: "\<And>A s. A \<in> set hashes \<Longrightarrow> P s \<Longrightarrow> P (setdefault (path A) A (fst s), snd s)"
  shows "P st'"
  using assms(1,2)
proof (induction "length hashes - i" arbitrary: i st)
  case 0
  then show ?case by (simp add: outer_loop_end)
next
  case (Suc n)
  then have lt: "i < length hashes" and n: "n = length hashes - Suc i"
    by simp_all
  let ?A = "hashes ! i"
  have A: "?A \<in> set hashes" using lt by simp
  from Suc.prems(1) lt have r: "running i"
    by (cases "running i") (simp_all add: outer_loop_cancel)
  show ?case
  proof (cases "path ?A \<in> keys (snd st)")
    case True
    with Suc.prems(1) lt r have "outer_loop running hashes (Suc i) st = Some st'"
      by (simp add: outer_loop_step)
    from Suc.hyps(1)[OF n this Suc.prems(2)] show ?thesis .
  next
    case False
    let ?st1 = "(setdefault (path ?A) ?A (fst st), snd st)"
    let ?st2 = "inner_loop hashes i ?A ?st1"
    from False Suc.prems(1) lt r have run: "outer_loop running hashes (Suc i) ?st2 = Some st'"
      by (simp add: outer_loop_step)
    have "P ?st1" using anchor[OF A Suc.prems(2)] .
    then have "P ?st2"
    proof (rule inner_loop_invariant)
      fix s j
      assume "j < length hashes" and "P s"
      then show "P (compare_pair ?A (hashes ! j) s)"
        using step[OF A, of "hashes ! j" s] by simp
    qed
    from Suc.hyps(1)[OF n run this] show ?thesis .
  qed
qed

lemma compare_pair_edges:
  assumes "x \<in> set (snd (compare_pair A B st))"
  shows "x \<in> set (snd st)
       \<or> (hamming (hash A) (hash B) \<le> HASH_DISTANCE_THRESHOLD
          \<and> (x = (path B, (path A, hamming (hash A) (hash B)))
             \<or> x = (path A, (path B, hamming (hash A) (hash B)))))"
  using assms
  by (auto simp: compare_pair_def Let_def split: if_splits dest!: set_update_cases)

lemma cluster_edges:
  assumes "cluster running hashes = Some (kept, duplicates)"
    and "(p, (q, d)) \<in> set duplicates"
  shows "d \<le> HASH_DISTANCE_THRESHOLD
       \<and> (\<exists>X Y. X \<in> set hashes \<and> Y \<in> set hashes \<and> path X = p \<and> path Y = q
              \<and> d = hamming (hash X) (hash Y))"
proof -
  let ?E = "\<lambda>x. snd (snd x) \<le> HASH_DISTANCE_THRESHOLD
       \<and> (\<exists>X Y. X \<in> set hashes \<and> Y \<in> set hashes \<and> path X = fst x \<and> path Y = fst (snd x)
              \<and> snd (snd x) = hamming (hash X) (hash Y))"
  let ?P = "\<lambda>s :: kept_map \<times> duplicates_map. \<forall>x \<in> set (snd s). ?E x"
  have "?P (kept, duplicates)"
  proof (rule outer_loop_invariant[where P = ?P and st = "([], [])"])
    show "outer_loop running hashes 0 ([], []) = Some (kept, duplicates)"
      using assms(1) by (simp add: cluster_def)
  next
    show "?P ([], [])" by simp
  next
    fix A B and s :: "kept_map \<times> duplicates_map"
    assume A: "A \<in> set hashes" and B: "B \<in> set hashes" and s: "?P s"
    show "?P (compare_pair A B s)"
    proof
      fix x
      assume "x \<in> set (snd (compare_pair A B s))"
      from compare_pair_edges[OF this]
      consider "x \<in> set (snd s)"
        | "hamming (hash A) (hash B) \<le> HASH_DISTANCE_THRESHOLD"
          "x = (path B, (path A, hamming (hash A) (hash B)))"
        | "hamming (hash A) (hash B) \<le> HASH_DISTANCE_THRESHOLD"
          "x = (path A, (path B, hamming (hash A) (hash B)))"
        by blast
      then show "?E x"
      proof cases
        case 1
        with s show ?thesis by blast
      next
        case 2
        have "hamming (hash A) (hash B) = hamming (hash B) (hash A)"
          by (rule hamming_commute)
        with 2 A B show ?thesis by auto
      next
        case 3
        with A B show ?thesis by auto
      qed
    qed
  next
    fix A and s :: "kept_map \<times> duplicates_map"
    assume "?P s"
    then show "?P (setdefault (path A) A (fst s), snd s)" by simp
  qed
  then have "\<forall>x \<in> set duplicates. ?E x" by simp
  then have "?E (p, (q, d))" using assms(2) by (rule bspec)
  then show ?thesis by simp
qed

lemma cluster_no_edge_beyond_threshold:
  assumes "cluster running hashes = Some (kept, duplicates)"
    and "distinct (map path hashes)"
    and "A \<in> set hashes" "B \<in> set hashes"
    and "HASH_DISTANCE_THRESHOLD < hamming (hash A) (hash B)"
  shows "(path A, (path B, d)) \<notin> set duplicates \<and> (path B, (path A, d)) \<notin> set duplicates"
proof -
  have inj: "inj_on path (set hashes)"
    using assms(2) by (simp add: distinct_map)
  have 1: False if "(path A, (path B, d)) \<in> set duplicates"
  proof -
    from cluster_edges[OF assms(1) that] obtain X Y
      where "d \<le> HASH_DISTANCE_THRESHOLD" "X \<in> set hashes" "Y \<in> set hashes"
        "path X = path A" "path Y = path B" "d = hamming (hash X) (hash Y)"
      by blast
    moreover from this inj assms(3,4) have "X = A" "Y = B"
      by (auto dest: inj_onD)
    ultimately show False using assms(5) by simp
  qed
  have 2: False if "(path B, (path A, d)) \<in> set duplicates"
  proof -
    from cluster_edges[OF assms(1) that] obtain X Y
      where "d \<le> HASH_DISTANCE_THRESHOLD" "X \<in> set hashes" "Y \<in> set hashes"
        "path X = path B" "path Y = path A" "d = hamming (hash X) (hash Y)"
      by blast
    moreover from this inj assms(3,4) have "X = B" "Y = A"
      by (auto dest: inj_onD)
    ultimately show False using assms(5) hamming_commute[of "hash A" "hash B"] by simp
  qed
  from 1 2 show ?thesis by blast
qed

subsection \<open>The summary of a completed run\<close>

lemma write_reports_completed:
  assumes "snd (write_reports e src_dir out_dir trash_dir total_files kept duplicates rows fs)
             = Completed s"
  shows "s = session_json (env_now e 0) src_dir out_dir trash_dir total_files kept duplicates
               (build_clusters duplicates)"
  using assms by (simp add: write_reports_def Let_def split: sum.splits)

lemma dedupe_process_completed:
  assumes "snd (dedupe_process e src_dir out_dir fs) = Completed s"
    and "hashing_loop (env_running_hash e) (env_open_image e) 0
           (find_images_recursive (env_walk e) src_dir) [] = Some hashes"
    and "cluster (env_running_compare e) hashes = Some (kept, duplicates)"
  shows "s = session_json (env_now e 0) src_dir out_dir (join out_dir ''trash'')
               (length (find_images_recursive (env_walk e) src_dir)) kept duplicates
               (build_clusters duplicates)"
  using assms
  by (auto simp: dedupe_process_def Let_def
      split: if_splits option.splits prod.splits
      dest: write_reports_completed)

lemma dedupe_process_cancelled:
  assumes "find_images_recursive (env_walk e) src_dir \<noteq> []"
    and "hashing_loop (env_running_hash e) (env_open_image e) 0
           (find_images_recursive (env_walk e) src_dir) [] = Some hashes"
    and "cluster (env_running_compare e) hashes = None"
  shows "dedupe_process e src_dir out_dir fs = (fs, Cancelled)"
  using assms by (simp add: dedupe_process_def Let_def)

section \<open>The properties of the specification\<close>

subsection \<open>Partition of the paths\<close>

text \<open>
  C1 at a failing input. Three records with distinct paths: \<open>a\<close> (100 by 100) and \<open>c\<close>
  (300 by 300) are six bits apart, \<open>b\<close> (200 by 200) is three bits from each. At anchor
  \<open>a\<close> the record \<open>b\<close> replaces \<open>a\<close> in \<open>kept\<close>; at anchor \<open>c\<close> the record \<open>b\<close> becomes
  a duplicate of \<open>c\<close> by the branch of line 279, which leaves \<open>kept\<close> as it is. The pass
  ends with \<open>b\<close> in both dictionaries.
\<close>

theorem kept_and_duplicate_at_once:
  "distinct (map path [mk_image ''/s/a.jpg'' 0 (100, 100), mk_image ''/s/c.jpg'' 63 (300, 300),
                       mk_image ''/s/b.jpg'' 7 (200, 200)])
   \<and> cluster never_cancelled
        [mk_image ''/s/a.jpg'' 0 (100, 100), mk_image ''/s/c.jpg'' 63 (300, 300),
         mk_image ''/s/b.jpg'' 7 (200, 200)]
       = Some ([(''/s/b.jpg'', mk_image ''/s/b.jpg'' 7 (200, 200)),
                (''/s/c.jpg'', mk_image ''/s/c.jpg'' 63 (300, 300))],
               [(''/s/a.jpg'', (''/s/b.jpg'', 3)), (''/s/b.jpg'', (''/s/c.jpg'', 3))])
   \<and> ''/s/b.jpg'' \<in> keys [(''/s/b.jpg'', mk_image ''/s/b.jpg'' 7 (200, 200)),
                           (''/s/c.jpg'', mk_image ''/s/c.jpg'' 63 (300, 300))]
   \<and> ''/s/b.jpg'' \<in> keys [(''/s/a.jpg'', (''/s/b.jpg'', 3::nat)), (''/s/b.jpg'', (''/s/c.jpg'', 3))]"
  by code_simp

subsection \<open>The kept path of an edge\<close>

text \<open>
  C2 at a failing input. Three records of equal hash, \<open>a\<close> (200 by 200), \<open>b\<close> (300 by
  300), \<open>c\<close> (100 by 100). Comparing anchor \<open>a\<close> with \<open>b\<close> makes \<open>a\<close> a key of
  \<open>duplicates\<close>; the inner loop goes on with the same anchor, and comparing \<open>a\<close> with
  \<open>c\<close> records the edge from \<open>c\<close> to \<open>a\<close> while \<open>a\<close> is a key of \<open>duplicates\<close>.
\<close>

theorem edge_to_demoted_anchor:
  "compare_pair (mk_image ''/s/a.jpg'' 0 (200, 200)) (mk_image ''/s/b.jpg'' 0 (300, 300))
      ([(''/s/a.jpg'', mk_image ''/s/a.jpg'' 0 (200, 200))], [])
     = ([(''/s/b.jpg'', mk_image ''/s/b.jpg'' 0 (300, 300))], [(''/s/a.jpg'', (''/s/b.jpg'', 0))])
   \<and> ''/s/a.jpg'' \<in> keys [(''/s/a.jpg'', (''/s/b.jpg'', 0::nat))]
   \<and> compare_pair (mk_image ''/s/a.jpg'' 0 (200, 200)) (mk_image ''/s/c.jpg'' 0 (100, 100))
      ([(''/s/b.jpg'', mk_image ''/s/b.jpg'' 0 (300, 300))], [(''/s/a.jpg'', (''/s/b.jpg'', 0))])
     = ([(''/s/b.jpg'', mk_image ''/s/b.jpg'' 0 (300, 300))],
        [(''/s/a.jpg'', (''/s/b.jpg'', 0)), (''/s/c.jpg'', (''/s/a.jpg'', 0))])
   \<and> cluster never_cancelled
        [mk_image ''/s/a.jpg'' 0 (200, 200), mk_image ''/s/b.jpg'' 0 (300, 300),
         mk_image ''/s/c.jpg'' 0 (100, 100)]
     = Some ([(''/s/b.jpg'', mk_image ''/s/b.jpg'' 0 (300, 300))],
             [(''/s/a.jpg'', (''/s/b.jpg'', 0)), (''/s/c.jpg'', (''/s/a.jpg'', 0))])"
  by code_simp

subsection \<open>One edge per removed path\<close>

text \<open>
  C3 at a failing input. Three records of equal hash and growing area. Comparing anchor
  \<open>a\<close> with \<open>b\<close> records the edge from \<open>a\<close> to \<open>b\<close>; the inner loop goes on with the
  same anchor, and comparing \<open>a\<close> with \<open>c\<close> replaces that entry by the edge from \<open>a\<close>
  to \<open>c\<close>.
\<close>

theorem edge_overwritten:
  "compare_pair (mk_image ''/s/a.jpg'' 0 (100, 100)) (mk_image ''/s/b.jpg'' 0 (200, 200))
      ([(''/s/a.jpg'', mk_image ''/s/a.jpg'' 0 (100, 100))], [])
     = ([(''/s/b.jpg'', mk_image ''/s/b.jpg'' 0 (200, 200))], [(''/s/a.jpg'', (''/s/b.jpg'', 0))])
   \<and> compare_pair (mk_image ''/s/a.jpg'' 0 (100, 100)) (mk_image ''/s/c.jpg'' 0 (300, 300))
      ([(''/s/b.jpg'', mk_image ''/s/b.jpg'' 0 (200, 200))], [(''/s/a.jpg'', (''/s/b.jpg'', 0))])
     = ([(''/s/b.jpg'', mk_image ''/s/b.jpg'' 0 (200, 200)),
         (''/s/c.jpg'', mk_image ''/s/c.jpg'' 0 (300, 300))],
        [(''/s/a.jpg'', (''/s/c.jpg'', 0))])
   \<and> inner_loop [mk_image ''/s/a.jpg'' 0 (100, 100), mk_image ''/s/b.jpg'' 0 (200, 200),
                  mk_image ''/s/c.jpg'' 0 (300, 300)] 0 (mk_image ''/s/a.jpg'' 0 (100, 100))
        ([(''/s/a.jpg'', mk_image ''/s/a.jpg'' 0 (100, 100))], [])
     = ([(''/s/b.jpg'', mk_image ''/s/b.jpg'' 0 (200, 200)),
         (''/s/c.jpg'', mk_image ''/s/c.jpg'' 0 (300, 300))],
        [(''/s/a.jpg'', (''/s/c.jpg'', 0))])"
  by code_simp

subsection \<open>Totals of the summary\<close>

text \<open>
  C4, as the code has it. In the summary of a completed run, \<open>total_scanned\<close> is the
  number of files the scan found, the files that failed to decode included;
  \<open>total_kept\<close> and \<open>total_duplicates\<close> are the sizes of the two dictionaries; the
  number of hashed files is the number of scanned files that decoded. When the scanned
  paths are distinct and no path is a key of both dictionaries, \<open>total_kept\<close> and
  \<open>total_duplicates\<close> add up to the number of hashed files, hence to \<open>total_scanned\<close>
  when every file decoded.
\<close>

theorem report_totals:
  assumes "snd (dedupe_process e src_dir out_dir fs) = Completed s"
    and "hashing_loop (env_running_hash e) (env_open_image e) 0
           (find_images_recursive (env_walk e) src_dir) [] = Some hashes"
    and "cluster (env_running_compare e) hashes = Some (kept, duplicates)"
  shows "total_scanned s = length (find_images_recursive (env_walk e) src_dir)
       \<and> total_kept s = length kept
       \<and> total_duplicates s = length duplicates
       \<and> length hashes
           = length (filter (\<lambda>p. env_open_image e p \<noteq> None)
                       (find_images_recursive (env_walk e) src_dir))
       \<and> (distinct (find_images_recursive (env_walk e) src_dir)
            \<and> keys kept \<inter> keys duplicates = {}
          \<longrightarrow> total_kept s + total_duplicates s = length hashes)
       \<and> (distinct (find_images_recursive (env_walk e) src_dir)
            \<and> keys kept \<inter> keys duplicates = {}
            \<and> list_all (\<lambda>p. env_open_image e p \<noteq> None)
                 (find_images_recursive (env_walk e) src_dir)
          \<longrightarrow> total_kept s + total_duplicates s = total_scanned s)"
proof -
  let ?images = "find_images_recursive (env_walk e) src_dir"
  let ?ok = "\<lambda>p. env_open_image e p \<noteq> None"
  from dedupe_process_completed[OF assms]
  have s: "total_scanned s = length ?images" "total_kept s = length kept"
    "total_duplicates s = length duplicates"
    by (simp_all add: session_json_def)
  from hashing_loop_paths[OF assms(2)]
  have p: "map path hashes = filter ?ok ?images"
    by simp
  then have l: "length hashes = length (filter ?ok ?images)"
    by (metis length_map)
  have sum: "length kept + length duplicates = length hashes"
    if "distinct ?images" "keys kept \<inter> keys duplicates = {}"
    using cluster_sizes[OF assms(3) _ that(2)] that(1) p by simp
  have all: "length (filter ?ok ?images) = length ?images" if "list_all ?ok ?images"
    using that by (simp add: list_all_iff)
  from s l sum all show ?thesis
    by simp
qed

theorem report_totals_witness:
  "snd (dedupe_process env_example ''/s'' ''/o'' fs_example) = Completed session_example
   \<and> hashing_loop (env_running_hash env_example) (env_open_image env_example) 0
        (find_images_recursive (env_walk env_example) ''/s'') [] = Some hashes_example
   \<and> cluster (env_running_compare env_example) hashes_example
       = Some ([(''/s/a.jpg'', mk_image ''/s/a.jpg'' 0 (1920, 1080)),
                (''/s/sub/c.jpeg'', mk_image ''/s/sub/c.jpeg'' 1048575 (640, 480))],
               [(''/s/b.JPG'', (''/s/a.jpg'', 3))])
   \<and> total_scanned session_example = length (find_images_recursive (env_walk env_example) ''/s'')
   \<and> total_kept session_example + total_duplicates session_example = length hashes_example
   \<and> snd (dedupe_process env_all_decode ''/s'' ''/o'' fs_example) = Completed session_all_decode
   \<and> list_all (\<lambda>p. env_open_image env_all_decode p \<noteq> None)
        (find_images_recursive (env_walk env_all_decode) ''/s'')
   \<and> total_kept session_all_decode + total_duplicates session_all_decode
       = total_scanned session_all_decode"
proof -
  let ?kept = "[(''/s/a.jpg'', mk_image ''/s/a.jpg'' 0 (1920, 1080)),
                (''/s/sub/c.jpeg'', mk_image ''/s/sub/c.jpeg'' 1048575 (640, 480))]"
  let ?dups = "[(''/s/b.JPG'', (''/s/a.jpg'', 3::nat))]"
  have 1: "snd (dedupe_process env_example ''/s'' ''/o'' fs_example) = Completed session_example"
    by code_simp
  have 2: "hashing_loop (env_running_hash env_example) (env_open_image env_example) 0
        (find_images_recursive (env_walk env_example) ''/s'') [] = Some hashes_example"
    by code_simp
  have 3: "cluster (env_running_compare env_example) hashes_example = Some (?kept, ?dups)"
    by code_simp
  have 4: "distinct (find_images_recursive (env_walk env_example) ''/s'')"
    by code_simp
  have 5: "keys ?kept \<inter> keys ?dups = {}"
    by code_simp
  have 6: "snd (dedupe_process env_all_decode ''/s'' ''/o'' fs_example) = Completed session_all_decode"
    by code_simp
  have 7: "hashing_loop (env_running_hash env_all_decode) (env_open_image env_all_decode) 0
        (find_images_recursive (env_walk env_all_decode) ''/s'') [] = Some hashes_example"
    by code_simp
  have 8: "cluster (env_running_compare env_all_decode) hashes_example = Some (?kept, ?dups)"
    by code_simp
  have 9: "distinct (find_images_recursive (env_walk env_all_decode) ''/s'')"
    by code_simp
  have 10: "list_all (\<lambda>p. env_open_image env_all_decode p \<noteq> None)
        (find_images_recursive (env_walk env_all_decode) ''/s'')"
    by code_simp
  from report_totals [OF 1 2 3] 4 5
  have a: "total_scanned session_example = length (find_images_recursive (env_walk env_example) ''/s'')"
    "total_kept session_example + total_duplicates session_example = length hashes_example"
    by blast+
  from report_totals [OF 6 7 8] 5 9 10
  have b: "total_kept session_all_decode + total_duplicates session_all_decode
       = total_scanned session_all_decode"
    by blast
  from 1 2 3 a 6 10 b show ?thesis
    by blast
qed

text \<open>
  C4 as stated fails. A run over four scanned files of which one does not decode: the summary reports
  \<open>total_scanned = 4\<close>, while three files were hashed.
\<close>

theorem total_scanned_counterexample:
  "snd (dedupe_process env_example ''/s'' ''/o'' fs_example) = Completed session_example
   \<and> total_scanned session_example = 4
   \<and> find_images_recursive (env_walk env_example) ''/s''
       = [''/s/a.jpg'', ''/s/b.JPG'', ''/s/sub/c.jpeg'', ''/s/sub/broken.png'']
   \<and> env_open_image env_example ''/s/sub/broken.png'' = None
   \<and> hashing_loop (env_running_hash env_example) (env_open_image env_example) 0
        (find_images_recursive (env_walk env_example) ''/s'') [] = Some hashes_example
   \<and> length hashes_example = 3"
  by code_simp

subsection \<open>Tie-break by area\<close>

text \<open>
  C5, as the code has it. In a run on exactly two records with different paths, within
  the threshold and of different resolution, the record of strictly greater pixel area
  is the only kept record and the other is its duplicate; on equal areas the earlier
  record is kept. In a longer run the comparison of such a pair records the edge
  against the record of smaller area (the later one on equal areas), and the winner of
  one comparison may be demoted by a later one.
\<close>

theorem two_record_tie_break:
  assumes "hamming (hash A) (hash B) \<le> HASH_DISTANCE_THRESHOLD"
    and "resolution A \<noteq> resolution B"
  shows "(path A \<noteq> path B \<longrightarrow>
          cluster never_cancelled [A, B] =
            Some (if area (resolution A) \<ge> area (resolution B)
                  then ([(path A, A)], [(path B, (path A, hamming (hash A) (hash B)))])
                  else ([(path B, B)], [(path A, (path B, hamming (hash A) (hash B)))])))
     \<and> (path B \<notin> keys (snd st) \<longrightarrow>
          snd (compare_pair A B st) =
            (if area (resolution A) \<ge> area (resolution B)
             then AList.update (path B) (path A, hamming (hash A) (hash B)) (snd st)
             else AList.update (path A) (path B, hamming (hash A) (hash B)) (snd st)))"
  using assms
  by (simp add: cluster_two_never_cancelled compare_pair_def Let_def setdefault_def)

theorem two_record_tie_break_witness:
  "hamming (hash (mk_image ''/s/a.jpg'' 0 (400, 300))) (hash (mk_image ''/s/b.jpg'' 3 (300, 400)))
      \<le> HASH_DISTANCE_THRESHOLD
   \<and> resolution (mk_image ''/s/a.jpg'' 0 (400, 300)) \<noteq> resolution (mk_image ''/s/b.jpg'' 3 (300, 400))
   \<and> area (resolution (mk_image ''/s/a.jpg'' 0 (400, 300)))
       = area (resolution (mk_image ''/s/b.jpg'' 3 (300, 400)))
   \<and> cluster never_cancelled [mk_image ''/s/a.jpg'' 0 (400, 300), mk_image ''/s/b.jpg'' 3 (300, 400)]
       = Some ([(''/s/a.jpg'', mk_image ''/s/a.jpg'' 0 (400, 300))],
               [(''/s/b.jpg'', (''/s/a.jpg'', 2))])
   \<and> hamming (hash (mk_image ''/s/a.jpg'' 0 (400, 300))) (hash (mk_image ''/s/c.jpg'' 3 (800, 600)))
      \<le> HASH_DISTANCE_THRESHOLD
   \<and> resolution (mk_image ''/s/a.jpg'' 0 (400, 300)) \<noteq> resolution (mk_image ''/s/c.jpg'' 3 (800, 600))
   \<and> area (resolution (mk_image ''/s/a.jpg'' 0 (400, 300)))
       < area (resolution (mk_image ''/s/c.jpg'' 3 (800, 600)))
   \<and> cluster never_cancelled [mk_image ''/s/a.jpg'' 0 (400, 300), mk_image ''/s/c.jpg'' 3 (800, 600)]
       = Some ([(''/s/c.jpg'', mk_image ''/s/c.jpg'' 3 (800, 600))],
               [(''/s/a.jpg'', (''/s/c.jpg'', 2))])
   \<and> snd (compare_pair (mk_image ''/s/a.jpg'' 0 (400, 300)) (mk_image ''/s/c.jpg'' 3 (800, 600))
            ([(''/s/a.jpg'', mk_image ''/s/a.jpg'' 0 (400, 300))], []))
       = [(''/s/a.jpg'', (''/s/c.jpg'', 2))]"
  using two_record_tie_break [of "mk_image ''/s/a.jpg'' 0 (400, 300)"
      "mk_image ''/s/b.jpg'' 3 (300, 400)" "([], [])"]
    two_record_tie_break [of "mk_image ''/s/a.jpg'' 0 (400, 300)"
      "mk_image ''/s/c.jpg'' 3 (800, 600)"
      "([(''/s/a.jpg'', mk_image ''/s/a.jpg'' 0 (400, 300))], [])"]
  by (simp add: hamming_0_3 HASH_DISTANCE_THRESHOLD_def area_def)

text \<open>
  C5 as stated fails on a chain. Three records of growing area: \<open>a\<close> and \<open>b\<close> are three
  bits apart, \<open>b\<close> and \<open>c\<close> are three bits apart, \<open>a\<close> and \<open>c\<close> six. The pair \<open>a\<close>, \<open>b\<close>
  is within the threshold and \<open>b\<close> has the strictly greater area, yet \<open>b\<close> ends the run
  as a duplicate of \<open>c\<close> and is not in \<open>kept\<close>.
\<close>

theorem survivor_counterexample:
  "hamming (hash (mk_image ''/s/a.jpg'' 0 (100, 100))) (hash (mk_image ''/s/b.jpg'' 7 (200, 200)))
      \<le> HASH_DISTANCE_THRESHOLD
   \<and> resolution (mk_image ''/s/a.jpg'' 0 (100, 100)) \<noteq> resolution (mk_image ''/s/b.jpg'' 7 (200, 200))
   \<and> area (resolution (mk_image ''/s/a.jpg'' 0 (100, 100)))
       < area (resolution (mk_image ''/s/b.jpg'' 7 (200, 200)))
   \<and> cluster never_cancelled
        [mk_image ''/s/a.jpg'' 0 (100, 100), mk_image ''/s/b.jpg'' 7 (200, 200),
         mk_image ''/s/c.jpg'' 63 (300, 300)]
       = Some ([(''/s/c.jpg'', mk_image ''/s/c.jpg'' 63 (300, 300))],
               [(''/s/a.jpg'', (''/s/b.jpg'', 3)), (''/s/b.jpg'', (''/s/c.jpg'', 3))])
   \<and> ''/s/b.jpg'' \<notin> keys [(''/s/c.jpg'', mk_image ''/s/c.jpg'' 63 (300, 300))]"
  by code_simp

subsection \<open>Cancellation during the comparison pass\<close>

text \<open>
  C6, as the code has it. The comparison pass reads \<^verbatim>\<open>self.running\<close> at the head of each
  outer iteration (source lines 252 and 253) and nowhere else. If the flag is set at all
  of these reads, the pass ends in the state of a run that is never cancelled, and that
  run always ends; if the flag is clear at one of them, the method returns there, the
  pass delivers no \<open>kept\<close> and no \<open>duplicates\<close>, and the run ends with the file system
  as it was: nothing is copied and no report is written. The inner loop does not read
  the flag, so a comparison sweep that has begun for an anchor is completed.
\<close>

theorem cancellation_at_anchor_heads:
  "((\<forall>i<length hashes. running i) \<longrightarrow> cluster running hashes = cluster never_cancelled hashes)
   \<and> cluster never_cancelled hashes \<noteq> None
   \<and> ((\<exists>i<length hashes. \<not> running i) \<longrightarrow> cluster running hashes = None)
   \<and> (find_images_recursive (env_walk e) src_dir \<noteq> []
        \<and> hashing_loop (env_running_hash e) (env_open_image e) 0
             (find_images_recursive (env_walk e) src_dir) [] = Some hashes
        \<and> (\<exists>i<length hashes. \<not> env_running_compare e i)
      \<longrightarrow> dedupe_process e src_dir out_dir fs = (fs, Cancelled))"
proof (intro conjI impI)
  assume "\<forall>i<length hashes. running i"
  then have "outer_loop running hashes 0 ([], []) = outer_loop (\<lambda>i. True) hashes 0 ([], [])"
    by (intro outer_loop_all_running) simp
  then show "cluster running hashes = cluster never_cancelled hashes"
    by (simp add: cluster_def never_cancelled_eq)
next
  show "cluster never_cancelled hashes \<noteq> None"
    by (simp add: cluster_def never_cancelled_eq outer_loop_total)
next
  assume "\<exists>i<length hashes. \<not> running i"
  then obtain j where "j < length hashes" "\<not> running j" by blast
  then show "cluster running hashes = None"
    unfolding cluster_def by (simp add: outer_loop_some_cancel[of 0 j])
next
  assume a: "find_images_recursive (env_walk e) src_dir \<noteq> []
        \<and> hashing_loop (env_running_hash e) (env_open_image e) 0
             (find_images_recursive (env_walk e) src_dir) [] = Some hashes
        \<and> (\<exists>i<length hashes. \<not> env_running_compare e i)"
  then obtain j where "j < length hashes" "\<not> env_running_compare e j" by blast
  then have "cluster (env_running_compare e) hashes = None"
    unfolding cluster_def by (simp add: outer_loop_some_cancel[of 0 j])
  with a show "dedupe_process e src_dir out_dir fs = (fs, Cancelled)"
    by (simp add: dedupe_process_cancelled)
qed

theorem cancellation_at_anchor_heads_witness:
  "cancel_before 2 0 \<and> cancel_before 2 1
   \<and> cluster (cancel_before 2) [mk_image ''/s/a.jpg'' 0 (1920, 1080), mk_image ''/s/b.jpg'' 3 (1280, 720)]
       = cluster never_cancelled [mk_image ''/s/a.jpg'' 0 (1920, 1080), mk_image ''/s/b.jpg'' 3 (1280, 720)]
   \<and> cluster never_cancelled [mk_image ''/s/a.jpg'' 0 (1920, 1080), mk_image ''/s/b.jpg'' 3 (1280, 720)]
       \<noteq> None
   \<and> cancel_before 1 0 \<and> \<not> cancel_before 1 1
   \<and> cluster (cancel_before 1) [mk_image ''/s/a.jpg'' 0 (1920, 1080), mk_image ''/s/b.jpg'' 3 (1280, 720)]
       = None
   \<and> find_images_recursive (env_walk env_cancel_compare) ''/s'' \<noteq> []
   \<and> hashing_loop (env_running_hash env_cancel_compare) (env_open_image env_cancel_compare) 0
        (find_images_recursive (env_walk env_cancel_compare) ''/s'') [] = Some hashes_example
   \<and> \<not> env_running_compare env_cancel_compare 1
   \<and> dedupe_process env_cancel_compare ''/s'' ''/o'' fs_example = (fs_example, Cancelled)"
proof -
  let ?hs = "[mk_image ''/s/a.jpg'' 0 (1920, 1080), mk_image ''/s/b.jpg'' 3 (1280, 720)]"
  have flags: "cancel_before 2 0" "cancel_before 2 1" "cancel_before 1 0" "\<not> cancel_before 1 1"
    by (simp_all add: cancel_before_def)
  have all: "\<forall>i<length ?hs. cancel_before 2 i"
    by (simp add: cancel_before_def)
  have some: "\<exists>i<length ?hs. \<not> cancel_before 1 i"
    by (rule exI[of _ 1]) (simp add: cancel_before_def)
  from all cancellation_at_anchor_heads [of ?hs "cancel_before 2"]
  have 1: "cluster (cancel_before 2) ?hs = cluster never_cancelled ?hs"
    and 2: "cluster never_cancelled ?hs \<noteq> None"
    by blast+
  from some cancellation_at_anchor_heads [of ?hs "cancel_before 1"]
  have 3: "cluster (cancel_before 1) ?hs = None"
    by blast
  have 4: "find_images_recursive (env_walk env_cancel_compare) ''/s'' \<noteq> []"
    by code_simp
  have 5: "hashing_loop (env_running_hash env_cancel_compare) (env_open_image env_cancel_compare) 0
        (find_images_recursive (env_walk env_cancel_compare) ''/s'') [] = Some hashes_example"
    by code_simp
  have 6: "\<not> env_running_compare env_cancel_compare 1"
    by code_simp
  have "length hashes_example = 3"
    by code_simp
  with 6 have 7: "\<exists>i<length hashes_example. \<not> env_running_compare env_cancel_compare i"
    by (intro exI[of _ 1]) simp
  from 4 5 7 cancellation_at_anchor_heads
    [of hashes_example "cancel_before 1" env_cancel_compare "''/s''" "''/o''" fs_example]
  have 8: "dedupe_process env_cancel_compare ''/s'' ''/o'' fs_example = (fs_example, Cancelled)"
    by blast
  from flags 1 2 3 4 5 6 8 show ?thesis
    by blast
qed

text \<open>
  C6 as stated fails. The flag is set at the first anchor and cleared before the second: the pass returns
  without a result, where the run that is not cancelled ends with one kept record and
  one duplicate.
\<close>

theorem cancellation_counterexample:
  "cancel_before 1 0 \<and> \<not> cancel_before 1 1
   \<and> cluster (cancel_before 1)
        [mk_image ''/s/a.jpg'' 0 (1920, 1080), mk_image ''/s/b.jpg'' 3 (1280, 720)] = None
   \<and> cluster never_cancelled
        [mk_image ''/s/a.jpg'' 0 (1920, 1080), mk_image ''/s/b.jpg'' 3 (1280, 720)]
       = Some ([(''/s/a.jpg'', mk_image ''/s/a.jpg'' 0 (1920, 1080))],
               [(''/s/b.jpg'', (''/s/a.jpg'', 2))])"
  by code_simp

subsection \<open>The threshold is inclusive\<close>

text \<open>
  C7, as the code has it. The threshold test is inclusive where the pass compares a
  pair. For two records of different resolution: when the comparison of the pair is
  reached, that is when the later record is not yet a key of \<open>duplicates\<close>, a distance
  equal to \<open>HASH_DISTANCE_THRESHOLD\<close> records one edge between the two, at that
  distance; at a distance of \<open>HASH_DISTANCE_THRESHOLD + 1\<close> the comparison changes
  nothing, whatever the dictionaries hold. A run on exactly the two records ends with
  one edge in the first case and with both records kept and no edge in the second. In
  every run over distinct paths that ends, \<open>duplicates\<close> holds no edge, in either
  direction, between two records that are \<open>HASH_DISTANCE_THRESHOLD + 1\<close> apart.
\<close>

theorem threshold_inclusive:
  assumes "resolution A \<noteq> resolution B"
  shows "(hamming (hash A) (hash B) = HASH_DISTANCE_THRESHOLD \<and> path B \<notin> keys (snd st) \<longrightarrow>
            snd (compare_pair A B st)
              = AList.update (path B) (path A, HASH_DISTANCE_THRESHOLD) (snd st)
          \<or> snd (compare_pair A B st)
              = AList.update (path A) (path B, HASH_DISTANCE_THRESHOLD) (snd st))
       \<and> (hamming (hash A) (hash B) = HASH_DISTANCE_THRESHOLD + 1 \<longrightarrow> compare_pair A B st = st)
       \<and> (hamming (hash A) (hash B) = HASH_DISTANCE_THRESHOLD \<and> path A \<noteq> path B \<longrightarrow>
            cluster never_cancelled [A, B] =
              Some (if area (resolution A) \<ge> area (resolution B)
                    then ([(path A, A)], [(path B, (path A, HASH_DISTANCE_THRESHOLD))])
                    else ([(path B, B)], [(path A, (path B, HASH_DISTANCE_THRESHOLD))])))
       \<and> (hamming (hash A) (hash B) = HASH_DISTANCE_THRESHOLD + 1 \<and> path A \<noteq> path B \<longrightarrow>
            cluster never_cancelled [A, B] = Some ([(path A, A), (path B, B)], []))
       \<and> (hamming (hash A) (hash B) = HASH_DISTANCE_THRESHOLD + 1
            \<and> cluster running hashes = Some (kept, duplicates)
            \<and> distinct (map path hashes) \<and> A \<in> set hashes \<and> B \<in> set hashes \<longrightarrow>
            (path A, (path B, d)) \<notin> set duplicates \<and> (path B, (path A, d)) \<notin> set duplicates)"
proof -
  have first: "(hamming (hash A) (hash B) = HASH_DISTANCE_THRESHOLD \<and> path B \<notin> keys (snd st) \<longrightarrow>
            snd (compare_pair A B st)
              = AList.update (path B) (path A, HASH_DISTANCE_THRESHOLD) (snd st)
          \<or> snd (compare_pair A B st)
              = AList.update (path A) (path B, HASH_DISTANCE_THRESHOLD) (snd st))
       \<and> (hamming (hash A) (hash B) = HASH_DISTANCE_THRESHOLD + 1 \<longrightarrow> compare_pair A B st = st)
       \<and> (hamming (hash A) (hash B) = HASH_DISTANCE_THRESHOLD \<and> path A \<noteq> path B \<longrightarrow>
            cluster never_cancelled [A, B] =
              Some (if area (resolution A) \<ge> area (resolution B)
                    then ([(path A, A)], [(path B, (path A, HASH_DISTANCE_THRESHOLD))])
                    else ([(path B, B)], [(path A, (path B, HASH_DISTANCE_THRESHOLD))])))
       \<and> (hamming (hash A) (hash B) = HASH_DISTANCE_THRESHOLD + 1 \<and> path A \<noteq> path B \<longrightarrow>
            cluster never_cancelled [A, B] = Some ([(path A, A), (path B, B)], []))"
    using assms
    by (simp add: cluster_two_never_cancelled compare_pair_def Let_def setdefault_def)
  have last: "(path A, (path B, d)) \<notin> set duplicates \<and> (path B, (path A, d)) \<notin> set duplicates"
    if "hamming (hash A) (hash B) = HASH_DISTANCE_THRESHOLD + 1"
      "cluster running hashes = Some (kept, duplicates)"
      "distinct (map path hashes)" "A \<in> set hashes" "B \<in> set hashes"
    using cluster_no_edge_beyond_threshold[OF that(2,3,4,5), of d] that(1) by simp
  from first last show ?thesis
    by blast
qed

theorem threshold_inclusive_witness:
  "resolution (mk_image ''/s/a.jpg'' 0 (1920, 1080)) \<noteq> resolution (mk_image ''/s/b.jpg'' 31 (1280, 720))
   \<and> hamming 0 31 = HASH_DISTANCE_THRESHOLD
   \<and> cluster never_cancelled [mk_image ''/s/a.jpg'' 0 (1920, 1080), mk_image ''/s/b.jpg'' 31 (1280, 720)]
       = Some ([(''/s/a.jpg'', mk_image ''/s/a.jpg'' 0 (1920, 1080))],
               [(''/s/b.jpg'', (''/s/a.jpg'', 5))])
   \<and> hamming 0 63 = HASH_DISTANCE_THRESHOLD + 1
   \<and> compare_pair (mk_image ''/s/a.jpg'' 0 (1920, 1080)) (mk_image ''/s/b.jpg'' 63 (1280, 720))
        ([(''/s/a.jpg'', mk_image ''/s/a.jpg'' 0 (1920, 1080))], [])
       = ([(''/s/a.jpg'', mk_image ''/s/a.jpg'' 0 (1920, 1080))], [])
   \<and> cluster never_cancelled [mk_image ''/s/a.jpg'' 0 (1920, 1080), mk_image ''/s/b.jpg'' 63 (1280, 720)]
       = Some ([(''/s/a.jpg'', mk_image ''/s/a.jpg'' 0 (1920, 1080)),
                (''/s/b.jpg'', mk_image ''/s/b.jpg'' 63 (1280, 720))], [])
   \<and> cluster never_cancelled
        [mk_image ''/s/a.jpg'' 0 (1920, 1080), mk_image ''/s/b.jpg'' 63 (1280, 720),
         mk_image ''/s/c.jpg'' 3 (640, 480)]
       = Some ([(''/s/a.jpg'', mk_image ''/s/a.jpg'' 0 (1920, 1080)),
                (''/s/b.jpg'', mk_image ''/s/b.jpg'' 63 (1280, 720))],
               [(''/s/c.jpg'', (''/s/a.jpg'', 2))])
   \<and> (''/s/a.jpg'', (''/s/b.jpg'', 6)) \<notin> set [(''/s/c.jpg'', (''/s/a.jpg'', 2::nat))]
   \<and> (''/s/b.jpg'', (''/s/a.jpg'', 6)) \<notin> set [(''/s/c.jpg'', (''/s/a.jpg'', 2::nat))]"
proof -
  let ?a = "mk_image ''/s/a.jpg'' 0 (1920, 1080)"
  let ?b5 = "mk_image ''/s/b.jpg'' 31 (1280, 720)"
  let ?b6 = "mk_image ''/s/b.jpg'' 63 (1280, 720)"
  let ?c = "mk_image ''/s/c.jpg'' 3 (640, 480)"
  let ?kept = "[(''/s/a.jpg'', ?a), (''/s/b.jpg'', ?b6)]"
  let ?dups = "[(''/s/c.jpg'', (''/s/a.jpg'', 2::nat))]"
  have r5: "resolution ?a \<noteq> resolution ?b5" and r6: "resolution ?a \<noteq> resolution ?b6"
    by simp_all
  have T: "hamming 0 31 = HASH_DISTANCE_THRESHOLD" "hamming 0 63 = HASH_DISTANCE_THRESHOLD + 1"
    by (simp_all add: hamming_0_31 hamming_0_63 HASH_DISTANCE_THRESHOLD_def)
  from threshold_inclusive [OF r5, where st = "([], [])"] T(1)
  have 1: "cluster never_cancelled [?a, ?b5]
       = Some ([(''/s/a.jpg'', ?a)], [(''/s/b.jpg'', (''/s/a.jpg'', 5))])"
    by (simp add: HASH_DISTANCE_THRESHOLD_def area_def)
  from threshold_inclusive [OF r6, where st = "([(''/s/a.jpg'', ?a)], [])"] T(2)
  have 2: "compare_pair ?a ?b6 ([(''/s/a.jpg'', ?a)], []) = ([(''/s/a.jpg'', ?a)], [])"
    and 3: "cluster never_cancelled [?a, ?b6] = Some (?kept, [])"
    by simp_all
  have run: "cluster never_cancelled [?a, ?b6, ?c] = Some (?kept, ?dups)"
    by code_simp
  have d: "distinct (map path [?a, ?b6, ?c])"
    by simp
  from threshold_inclusive [OF r6, where running = never_cancelled and hashes = "[?a, ?b6, ?c]"
      and kept = ?kept and duplicates = ?dups and d = 6] T(2) run d
  have 4: "(''/s/a.jpg'', (''/s/b.jpg'', 6)) \<notin> set ?dups"
    "(''/s/b.jpg'', (''/s/a.jpg'', 6)) \<notin> set ?dups"
    by simp_all
  from r5 T 1 2 3 run 4 show ?thesis
    by simp
qed

text \<open>
  C7 as stated fails for a pair that the pass does not compare. The records \<open>b\<close> and
  \<open>c\<close> are exactly five bits apart and differ in resolution; \<open>b\<close> is one bit from the
  larger \<open>a\<close> and becomes its duplicate at the first anchor, \<open>c\<close> is six bits from \<open>a\<close>.
  Anchor \<open>b\<close> is skipped, so \<open>b\<close> and \<open>c\<close> are never compared: the run ends with \<open>c\<close>
  kept and no edge between \<open>b\<close> and \<open>c\<close>.
\<close>

theorem threshold_pair_counterexample:
  "hamming (hash (mk_image ''/s/b.jpg'' 1 (200, 200))) (hash (mk_image ''/s/c.jpg'' 63 (100, 100)))
      = HASH_DISTANCE_THRESHOLD
   \<and> resolution (mk_image ''/s/b.jpg'' 1 (200, 200)) \<noteq> resolution (mk_image ''/s/c.jpg'' 63 (100, 100))
   \<and> cluster never_cancelled
        [mk_image ''/s/a.jpg'' 0 (300, 300), mk_image ''/s/b.jpg'' 1 (200, 200),
         mk_image ''/s/c.jpg'' 63 (100, 100)]
       = Some ([(''/s/a.jpg'', mk_image ''/s/a.jpg'' 0 (300, 300)),
                (''/s/c.jpg'', mk_image ''/s/c.jpg'' 63 (100, 100))],
               [(''/s/b.jpg'', (''/s/a.jpg'', 1))])"
  by code_simp

subsection \<open>Equal resolutions\<close>

text \<open>
  C8. When two records are within the threshold and have the same \<open>(width, height)\<close>,
  comparing them changes neither dictionary, whatever the dictionaries hold, so no edge
  is recorded for either. A run on exactly two such records ends with the paths of both
  in \<open>kept\<close> and with \<open>duplicates\<close> empty; when the two paths differ, \<open>kept\<close> holds the
  two records in input order.
\<close>

theorem resolution_tie_exemption:
  assumes "hamming (hash A) (hash B) \<le> HASH_DISTANCE_THRESHOLD"
    and "resolution A = resolution B"
  shows "compare_pair A B st = st
     \<and> cluster never_cancelled [A, B] = Some (setdefault (path B) B [(path A, A)], [])
     \<and> (path A \<noteq> path B \<longrightarrow>
          cluster never_cancelled [A, B] = Some ([(path A, A), (path B, B)], []))"
  using assms
  by (simp add: cluster_two_never_cancelled compare_pair_def Let_def setdefault_def)

theorem resolution_tie_exemption_witness:
  "hamming (hash (mk_image ''/s/a.jpg'' 0 (1000, 1000))) (hash (mk_image ''/s/b.jpg'' 3 (1000, 1000)))
      \<le> HASH_DISTANCE_THRESHOLD
   \<and> resolution (mk_image ''/s/a.jpg'' 0 (1000, 1000)) = resolution (mk_image ''/s/b.jpg'' 3 (1000, 1000))
   \<and> path (mk_image ''/s/a.jpg'' 0 (1000, 1000)) \<noteq> path (mk_image ''/s/b.jpg'' 3 (1000, 1000))
   \<and> compare_pair (mk_image ''/s/a.jpg'' 0 (1000, 1000)) (mk_image ''/s/b.jpg'' 3 (1000, 1000)) ([], []) = ([], [])
   \<and> cluster never_cancelled [mk_image ''/s/a.jpg'' 0 (1000, 1000), mk_image ''/s/b.jpg'' 3 (1000, 1000)]
       = Some ([(''/s/a.jpg'', mk_image ''/s/a.jpg'' 0 (1000, 1000)),
                (''/s/b.jpg'', mk_image ''/s/b.jpg'' 3 (1000, 1000))], [])"
  using resolution_tie_exemption [of "mk_image ''/s/a.jpg'' 0 (1000, 1000)"
      "mk_image ''/s/b.jpg'' 3 (1000, 1000)" "([], [])"]
  by (simp add: hamming_0_3 HASH_DISTANCE_THRESHOLD_def setdefault_def)

subsection \<open>Kept copies are not overwritten\<close>

text \<open>
  C9. The kept-copy loop never overwrites: whatever exists in the file system before
  the loop is unchanged after it, for every list of kept records and every state of the
  output directory, also when the loop is ended by an exception. A second pass of the
  loop over the same kept records, on the file system a first complete pass left,
  copies nothing and leaves that file system as it is. The copies into the trash
  directory never write to a destination of the kept-copy loop.
\<close>

theorem kept_copy_never_overwrites:
  "(exists fs p \<longrightarrow> fst (copy_kept out_dir ks fs) p = fs p)
   \<and> (snd (copy_kept out_dir ks fs) = None \<longrightarrow>
        copy_kept out_dir ks (fst (copy_kept out_dir ks fs)) = (fst (copy_kept out_dir ks fs), None))
   \<and> fst (fst (copy_duplicates hashes (join out_dir ''trash'') duplicates (fs, rows)))
        (join out_dir (basename q)) = fs (join out_dir (basename q))"
  using copy_kept_preserves[of fs p out_dir ks] copy_kept_idempotent[of out_dir ks fs]
    copy_duplicates_keeps[of hashes out_dir duplicates fs rows q]
  by blast

theorem kept_copy_never_overwrites_witness:
  "exists fs_example ''/o/a.jpg''
   \<and> fs_example ''/o/a.jpg'' = Some (File (Blob ''earlier''))
   \<and> fst (copy_kept ''/o'' kept_example fs_example) ''/o/a.jpg'' = Some (File (Blob ''earlier''))
   \<and> snd (copy_kept ''/o'' kept_example fs_example) = None
   \<and> copy_kept ''/o'' kept_example (fst (copy_kept ''/o'' kept_example fs_example))
       = (fst (copy_kept ''/o'' kept_example fs_example), None)"
proof -
  have 1: "exists fs_example ''/o/a.jpg''"
    by code_simp
  have 2: "fs_example ''/o/a.jpg'' = Some (File (Blob ''earlier''))"
    by code_simp
  have 3: "snd (copy_kept ''/o'' kept_example fs_example) = None"
    by code_simp
  from kept_copy_never_overwrites [of fs_example "''/o/a.jpg''" "''/o''" kept_example] 1 2 3
  show ?thesis by simp
qed

subsection \<open>The empty scan\<close>

text \<open>
  C10. When the scan yields no candidate file, the run ends there: the file system is
  left as it was, so neither the trash directory nor any of the four reports is
  created, and the run ends without a summary.
\<close>

theorem empty_scan_ends_run:
  assumes "find_images_recursive (env_walk e) src_dir = []"
  shows "dedupe_process e src_dir out_dir fs = (fs, No_images)"
  using assms by (simp add: dedupe_process_def)

theorem empty_scan_ends_run_witness:
  "find_images_recursive (env_walk env_no_images) ''/s'' = []
   \<and> dedupe_process env_no_images ''/s'' ''/o'' fs_example = (fs_example, No_images)
   \<and> fs_example ''/o/trash'' = None
   \<and> fs_example ''/o/dedupe_session.json'' = None"
proof -
  have 1: "find_images_recursive (env_walk env_no_images) ''/s'' = []"
    by code_simp
  have 2: "fs_example ''/o/trash'' = None" "fs_example ''/o/dedupe_session.json'' = None"
    by code_simp+
  from empty_scan_ends_run [OF 1, of "''/o''" fs_example] 1 2 show ?thesis
    by simp
qed

end
